theory Spec2Isabelle
  imports Complex_Main "HOL-Library.Log_Nat"
begin

section \<open>Python numbers\<close>

text \<open>
  Python integers are unbounded and are modelled by \<^typ>\<open>int\<close>; \<open>//\<close> with a positive
  divisor is \<open>div\<close>. A Python float is an IEEE 754 binary64 number. Every finite binary64
  value is a rational, so a float is modelled by the \<^typ>\<open>rat\<close> it denotes, and every
  floating-point operation is the exact operation followed by rounding to the nearest
  value with a 53-bit significand, ties to the even significand. The exponent range is
  not bounded in the model: for the numbers that occur here (sizes of images, ratios of
  two such sizes) no binary64 operation overflows or produces a subnormal.
\<close>

definition pow2 :: "int \<Rightarrow> rat" where
  "pow2 e = (if 0 \<le> e then 2 ^ nat e else 1 / 2 ^ nat (- e))"

text \<open>The binary exponent of a positive rational: \<open>pow2 e \<le> q < pow2 (e + 1)\<close>.\<close>

definition ilog2 :: "rat \<Rightarrow> int" where
  "ilog2 q = (if 1 \<le> q then int (floorlog 2 (nat \<lfloor>q\<rfloor>)) - 1
              else - int (floorlog 2 (nat (\<lceil>1 / q\<rceil> - 1))))"

definition round_half_even :: "rat \<Rightarrow> int" where
  "round_half_even m = (let f = \<lfloor>m\<rfloor>; r = m - of_int f in
     if r < 1 / 2 then f else if 1 / 2 < r then f + 1 else if even f then f else f + 1)"

definition double_round :: "rat \<Rightarrow> rat" where
  "double_round q = (if q = 0 then 0 else
     let u = pow2 (ilog2 \<bar>q\<bar> - 52) in sgn q * of_int (round_half_even (\<bar>q\<bar> / u)) * u)"

text \<open>A float literal such as \<open>0.15\<close> is the double nearest to the written decimal.\<close>

definition float_lit :: "rat \<Rightarrow> rat" where
  "float_lit q = double_round q"

text \<open>An integer operand of a mixed operation is converted to a float first.\<close>

definition float_of_int :: "int \<Rightarrow> rat" where
  "float_of_int n = double_round (of_int n)"

definition fadd :: "rat \<Rightarrow> rat \<Rightarrow> rat" where
  "fadd a b = double_round (a + b)"

definition fmul :: "rat \<Rightarrow> rat \<Rightarrow> rat" where
  "fmul a b = double_round (a * b)"

text \<open>
  \<open>a / b\<close> on two integers is the correctly rounded quotient. The script divides by
  \<open>size\<close> only inside \<open>for y in range(size)\<close>, hence only when \<open>size\<close> is positive.
\<close>

definition truediv :: "int \<Rightarrow> int \<Rightarrow> rat" where
  "truediv a b = double_round (of_int a / of_int b)"

text \<open>\<open>int(x)\<close> on a float truncates towards zero.\<close>

definition py_int :: "rat \<Rightarrow> int" where
  "py_int x = (if 0 \<le> x then \<lfloor>x\<rfloor> else \<lceil>x\<rceil>)"

section \<open>The canvas and the drawing operations\<close>

text \<open>
  An RGBA image is its width, its height and the four channels of every pixel. Drawing
  with an opaque ink replaces the pixels that the drawn shape covers inside the canvas.
\<close>

type_synonym rgba = "int \<times> int \<times> int \<times> int"

type_synonym box = "int \<times> int \<times> int \<times> int"

record image =
  width :: int
  height :: int
  pixels :: "int \<times> int \<Rightarrow> rgba"

datatype error = ValueError | FileExistsError | FileNotFoundError
  | NotADirectoryError | IsADirectoryError

definition alpha :: "rgba \<Rightarrow> int" where
  "alpha c = (case c of (r, g, b, a) \<Rightarrow> a)"

text \<open>\<open>Image.new('RGBA', (size, size), c)\<close>; a negative dimension is refused.\<close>

definition image_new :: "int \<Rightarrow> rgba \<Rightarrow> error + image" where
  "image_new sz c =
     (if sz < 0 then Inl ValueError
      else Inr \<lparr>width = sz, height = sz, pixels = (\<lambda>p. c)\<rparr>)"

definition inside :: "image \<Rightarrow> int \<times> int \<Rightarrow> bool" where
  "inside img p = (case p of (x, y) \<Rightarrow> 0 \<le> x \<and> x < width img \<and> 0 \<le> y \<and> y < height img)"

text \<open>\<open>img.getpixel(p)\<close>: the pixel inside the canvas, an error outside.\<close>

definition getpixel :: "image \<Rightarrow> int \<times> int \<Rightarrow> rgba option" where
  "getpixel img p = (if inside img p then Some (pixels img p) else None)"

definition paint :: "(int \<times> int \<Rightarrow> bool) \<Rightarrow> rgba \<Rightarrow> image \<Rightarrow> image" where
  "paint cover ink img =
     img\<lparr>pixels := (\<lambda>p. if inside img p \<and> cover p then ink else pixels img p)\<rparr>"

definition in_box :: "box \<Rightarrow> int \<times> int \<Rightarrow> bool" where
  "in_box b p = (case b of (x0, y0, x1, y1) \<Rightarrow> case p of (x, y) \<Rightarrow>
     x0 \<le> x \<and> x \<le> x1 \<and> y0 \<le> y \<and> y \<le> y1)"

text \<open>
  \<open>draw.rectangle([(x0, y0), (x1, y1)], fill=ink)\<close>: the box with both corners
  included, clipped to the canvas.
\<close>

definition rectangle_fill :: "box \<Rightarrow> rgba \<Rightarrow> image \<Rightarrow> image" where
  "rectangle_fill b ink img = paint (in_box b) ink img"

text \<open>
  The two kinds of stroke the script draws, with the arguments it passes:
  \<open>draw.rectangle(box, outline=ink, width=w)\<close> and
  \<open>draw.line([p, q], fill=ink, width=w)\<close>. Which pixels a stroke covers is decided
  by the imaging library, not by the script; it is a parameter \<open>R\<close> of the model.
\<close>

datatype stroke =
  Outline box rgba int
  | Line "int \<times> int" "int \<times> int" rgba int

type_synonym rasteriser = "stroke \<Rightarrow> int \<times> int \<Rightarrow> bool"

fun stroke_ink :: "stroke \<Rightarrow> rgba" where
  "stroke_ink (Outline b ink w) = ink"
| "stroke_ink (Line p q ink w) = ink"

fun stroke_width :: "stroke \<Rightarrow> int" where
  "stroke_width (Outline b ink w) = w"
| "stroke_width (Line p q ink w) = w"

definition draw_stroke :: "rasteriser \<Rightarrow> stroke \<Rightarrow> image \<Rightarrow> image" where
  "draw_stroke R s img = paint (R s) (stroke_ink s) img"

text \<open>
  One rasteriser, used where a concrete canvas is computed: an outline covers the pixels
  of its box that lie within \<open>w\<close> pixels of the border, and a line covers the band of
  \<open>w\<close> rows (or columns) around the segment. The script draws horizontal lines only.
\<close>

fun band_strokes :: rasteriser where
  "band_strokes (Outline (x0, y0, x1, y1) ink w) (x, y) =
     (in_box (x0, y0, x1, y1) (x, y) \<and>
      (x < x0 + w \<or> x1 - w < x \<or> y < y0 + w \<or> y1 - w < y))"
| "band_strokes (Line (xa, ya) (xb, yb) ink w) (x, y) =
     (if ya = yb then min xa xb \<le> x \<and> x \<le> max xa xb \<and> ya - w div 2 \<le> y \<and> y < ya - w div 2 + w
      else if xa = xb then min ya yb \<le> y \<and> y \<le> max ya yb \<and> xa - w div 2 \<le> x \<and> x < xa - w div 2 + w
      else in_box (min xa xb - w, min ya yb - w, max xa xb + w, max ya yb + w) (x, y))"

section \<open>\<open>create_icon\<close>\<close>

text \<open>
  The colour of row \<open>y\<close> in the background loop:
  \<^verbatim>\<open>
  ratio = y / size
  r = int(139 + (59 - 139) * ratio)
  g = int(92 + (130 - 92) * ratio)
  b = int(246 + (246 - 246) * ratio)
  \<close>
  with the fill \<open>(r, g, b, 255)\<close>. Each channel is \<open>int(a + (b - a) * ratio)\<close> for
  its start value \<open>a\<close> and its end value \<open>b\<close>.
\<close>

definition channel :: "int \<Rightarrow> int \<Rightarrow> rat \<Rightarrow> int" where
  "channel a b ratio = py_int (fadd (float_of_int a) (fmul (float_of_int (b - a)) ratio))"

definition row_colour :: "int \<Rightarrow> int \<Rightarrow> rgba" where
  "row_colour sz y =
     (let ratio = truediv y sz;
          r = channel 139 59 ratio;
          g = channel 92 130 ratio;
          b = channel 246 246 ratio
      in (r, g, b, 255))"

text \<open>
  The loop \<open>for y in range(size)\<close> from row \<open>y\<close> on; each pass fills the box
  \<open>[(0, y), (size, y + 1)]\<close>.
\<close>

function gradient_rows :: "int \<Rightarrow> int \<Rightarrow> image \<Rightarrow> image" where
  "gradient_rows y sz img =
     (if y < sz
      then gradient_rows (y + 1) sz (rectangle_fill (0, y, sz, y + 1) (row_colour sz y) img)
      else img)"
  by pat_completeness auto
termination
  by (relation "measure (\<lambda>(y, sz, img). nat (sz - y))") auto

declare gradient_rows.simps [simp del]

definition white :: rgba where
  "white = (255, 255, 255, 255)"

definition icon_padding :: "int \<Rightarrow> int" where
  "icon_padding sz = py_int (fmul (float_of_int sz) (float_lit (15 / 100)))"

definition icon_line_width :: "int \<Rightarrow> int" where
  "icon_line_width sz = max 2 (sz div 32)"

text \<open>
  The four strokes of the glyph, in the order in which the script draws them, with the
  script's own intermediate names.
\<close>

definition icon_strokes :: "int \<Rightarrow> stroke list" where
  "icon_strokes sz =
     (let padding = icon_padding sz;
          rect_coords = (padding, padding, sz - padding, sz - padding);
          line_width = icon_line_width sz;
          inner = float_of_int (sz - 2 * padding);
          line_start_x = padding + py_int (fmul inner (float_lit (2 / 10)));
          line_end_x = padding + py_int (fmul inner (float_lit (8 / 10)));
          line1_y = padding + py_int (fmul inner (float_lit (3 / 10)));
          line2_y = padding + py_int (fmul inner (float_lit (5 / 10)));
          line3_y = padding + py_int (fmul inner (float_lit (7 / 10)))
      in [Outline rect_coords white line_width,
          Line (line_start_x, line1_y) (line_end_x, line1_y) white line_width,
          Line (line_start_x, line2_y) (line_end_x, line2_y) white line_width,
          Line (line_start_x, line3_y)
               (line_end_x - py_int (fmul inner (float_lit (2 / 10))), line3_y) white line_width])"

definition create_icon :: "rasteriser \<Rightarrow> int \<Rightarrow> error + image" where
  "create_icon R sz =
     (case image_new sz (0, 0, 0, 0) of
        Inl e \<Rightarrow> Inl e
      | Inr img \<Rightarrow> Inr (fold (draw_stroke R) (icon_strokes sz) (gradient_rows 0 sz img)))"

text \<open>
  The glyph as the specification words it, for comparison: the same four strokes with
  every fraction of the size taken in exact arithmetic and rounded down.
\<close>

definition spec_strokes :: "int \<Rightarrow> stroke list" where
  "spec_strokes sz =
     (let padding = \<lfloor>rat_of_int sz * (15 / 100)\<rfloor>;
          inner = rat_of_int (sz - 2 * padding);
          line_width = max 2 (sz div 32);
          line_start_x = padding + \<lfloor>inner * (2 / 10)\<rfloor>;
          line_end_x = padding + \<lfloor>inner * (8 / 10)\<rfloor>;
          line1_y = padding + \<lfloor>inner * (3 / 10)\<rfloor>;
          line2_y = padding + \<lfloor>inner * (5 / 10)\<rfloor>;
          line3_y = padding + \<lfloor>inner * (7 / 10)\<rfloor>
      in [Outline (padding, padding, sz - padding, sz - padding) white line_width,
          Line (line_start_x, line1_y) (line_end_x, line1_y) white line_width,
          Line (line_start_x, line2_y) (line_end_x, line2_y) white line_width,
          Line (line_start_x, line3_y)
               (line_end_x - \<lfloor>inner * (2 / 10)\<rfloor>, line3_y) white line_width])"

text \<open>\<open>create_icon(size).getpixel(p)\<close>, when both succeed.\<close>

definition icon_pixel :: "rasteriser \<Rightarrow> int \<Rightarrow> int \<times> int \<Rightarrow> rgba option" where
  "icon_pixel R sz p = (case create_icon R sz of Inl e \<Rightarrow> None | Inr img \<Rightarrow> getpixel img p)"

section \<open>The script\<close>

text \<open>
  The file system is a map from paths to entries; a file holds the bytes written to it.
  The PNG encoder of the imaging library is a parameter \<open>png\<close> of the model, a function
  from the image to the bytes of the file. The world also records, in order, the calls
  with an effect that the script makes.
\<close>

datatype 'b entry = Dir | File 'b

datatype event = Makedirs string | Create_icon int | Save string | Print string

record 'b world =
  files :: "string \<rightharpoonup> 'b entry"
  trace :: "event list"

type_synonym 'b outcome = "(error \<times> 'b world) + 'b world"

text \<open>\<open>os.path.exists(p)\<close>.\<close>

definition path_exists :: "'b world \<Rightarrow> string \<Rightarrow> bool" where
  "path_exists w p = (files w p \<noteq> None)"

text \<open>\<open>os.makedirs(p)\<close> for a name of one level, such as \<open>'icons'\<close>.\<close>

definition makedirs :: "string \<Rightarrow> 'b world \<Rightarrow> 'b outcome" where
  "makedirs p w =
     (let w' = w\<lparr>trace := trace w @ [Makedirs p]\<rparr> in
      if files w p \<noteq> None then Inl (FileExistsError, w')
      else Inr (w'\<lparr>files := (files w)(p \<mapsto> Dir)\<rparr>))"

text \<open>The directory part of a path: everything before the last \<open>/\<close>.\<close>

definition dirname :: "string \<Rightarrow> string" where
  "dirname p = rev (drop 1 (dropWhile (\<lambda>c. c \<noteq> CHR ''/'') (rev p)))"

text \<open>
  \<open>icon.save(path)\<close> opens the path for writing and writes the encoded image: the
  directory of the path has to be a directory and the path itself must not be one.
\<close>

definition save :: "(image \<Rightarrow> 'b) \<Rightarrow> image \<Rightarrow> string \<Rightarrow> 'b world \<Rightarrow> 'b outcome" where
  "save png img path w =
     (let w' = w\<lparr>trace := trace w @ [Save path]\<rparr> in
      case (if dirname path = [] then Some Dir else files w (dirname path)) of
        None \<Rightarrow> Inl (FileNotFoundError, w')
      | Some (File c) \<Rightarrow> Inl (NotADirectoryError, w')
      | Some Dir \<Rightarrow>
          if files w path = Some Dir then Inl (IsADirectoryError, w')
          else Inr (w'\<lparr>files := (files w)(path \<mapsto> File (png img))\<rparr>))"

definition print :: "string \<Rightarrow> 'b world \<Rightarrow> 'b world" where
  "print s w = w\<lparr>trace := trace w @ [Print s]\<rparr>"

text \<open>The decimal digits of an integer, as \<open>f'{size}'\<close> formats it.\<close>

fun str_nat :: "nat \<Rightarrow> string" where
  "str_nat n = (if n < 10 then [''0123456789'' ! n]
                else str_nat (n div 10) @ [''0123456789'' ! (n mod 10)])"

definition str_int :: "int \<Rightarrow> string" where
  "str_int n = (if n < 0 then CHR ''-'' # str_nat (nat (- n)) else str_nat (nat n))"

definition icons_dir :: string where
  "icons_dir = ''icons''"

definition sizes :: "int list" where
  "sizes = [16, 48, 128]"

definition icon_path :: "int \<Rightarrow> string" where
  "icon_path sz = icons_dir @ ''/icon'' @ str_int sz @ ''.png''"

definition created_line :: "int \<Rightarrow> string" where
  "created_line sz = ''Created icon'' @ str_int sz @ ''.png''"

text \<open>\<open>if not os.path.exists(icons_dir): os.makedirs(icons_dir)\<close>.\<close>

definition ensure_icons_dir :: "'b world \<Rightarrow> 'b outcome" where
  "ensure_icons_dir w = (if \<not> path_exists w icons_dir then makedirs icons_dir w else Inr w)"

text \<open>The loop \<open>for size in sizes\<close>: render, save, print.\<close>

fun save_icons :: "rasteriser \<Rightarrow> (image \<Rightarrow> 'b) \<Rightarrow> int list \<Rightarrow> 'b world \<Rightarrow> 'b outcome" where
  "save_icons R png [] w = Inr w"
| "save_icons R png (sz # rest) w =
     (let w1 = w\<lparr>trace := trace w @ [Create_icon sz]\<rparr> in
      case create_icon R sz of
        Inl e \<Rightarrow> Inl (e, w1)
      | Inr icon \<Rightarrow>
          (case save png icon (icon_path sz) w1 of
             Inl ew \<Rightarrow> Inl ew
           | Inr w2 \<Rightarrow> save_icons R png rest (print (created_line sz) w2)))"

text \<open>The script from top to bottom.\<close>

definition generate_icons :: "rasteriser \<Rightarrow> (image \<Rightarrow> 'b) \<Rightarrow> 'b world \<Rightarrow> 'b outcome" where
  "generate_icons R png w =
     (case ensure_icons_dir w of
        Inl ew \<Rightarrow> Inl ew
      | Inr w1 \<Rightarrow>
          (case save_icons R png sizes w1 of
             Inl ew \<Rightarrow> Inl ew
           | Inr w2 \<Rightarrow> Inr (print ''All icons created successfully!'' w2)))"

text \<open>A file system in which every entry lies in a directory.\<close>

definition wf_files :: "(string \<rightharpoonup> 'b entry) \<Rightarrow> bool" where
  "wf_files fs = (\<forall>p e. fs p = Some e \<longrightarrow> dirname p = [] \<or> fs (dirname p) = Some Dir)"

section \<open>Rounding to a double\<close>

lemma pow2_powi: "pow2 e = 2 powi e"
  by (simp add: pow2_def power_int_def field_simps)

lemma pow2_pos [simp]: "0 < pow2 e"
  by (simp add: pow2_def)

lemma pow2_nonzero [simp]: "pow2 e \<noteq> 0"
  by (simp add: pow2_def)

lemma pow2_add: "pow2 (a + b) = pow2 a * pow2 b"
  by (simp add: pow2_powi power_int_add)

lemma pow2_mono: "a \<le> b \<Longrightarrow> pow2 a \<le> pow2 b"
  by (simp add: pow2_powi power_int_increasing)

lemma pow2_strict_mono: "a < b \<Longrightarrow> pow2 a < pow2 b"
  by (simp add: pow2_powi power_int_strict_increasing)

lemma pow2_nat: "0 \<le> e \<Longrightarrow> pow2 e = of_int (2 ^ nat e)"
  by (simp add: pow2_def)


lemma floorlog_pos: "0 < n \<Longrightarrow> 0 < floorlog 2 n"
  by (simp add: floorlog_def)

lemma ilog2_bounds:
  assumes "0 < q"
  shows "pow2 (ilog2 q) \<le> q \<and> q < pow2 (ilog2 q + 1)"
proof (cases "1 \<le> q")
  case True
  define n where "n = nat \<lfloor>q\<rfloor>"
  define fl where "fl = floorlog 2 n"
  have n: "0 < n" using True by (simp add: n_def)
  have fl: "0 < fl" using n by (simp add: fl_def floorlog_pos)
  have b: "2 ^ (fl - 1) \<le> n" "n < 2 ^ fl"
    using floorlog_bounds [of n 2] n by (simp_all add: fl_def)
  have e: "ilog2 q = int fl - 1" using True by (simp add: ilog2_def n_def fl_def)
  have nq: "rat_of_nat n \<le> q" "q < rat_of_nat n + 1"
    using True by (simp_all add: n_def) linarith
  have "pow2 (ilog2 q) = rat_of_nat (2 ^ (fl - 1))"
    using fl by (simp add: e pow2_def nat_diff_distrib)
  also have "\<dots> \<le> rat_of_nat n" using b(1) by (simp only: of_nat_le_iff)
  finally have lo: "pow2 (ilog2 q) \<le> q" using nq(1) by simp
  have "Suc n \<le> 2 ^ fl" using b(2) by simp
  then have "rat_of_nat (Suc n) \<le> rat_of_nat (2 ^ fl)" by (simp only: of_nat_le_iff)
  then have "rat_of_nat n + 1 \<le> rat_of_nat (2 ^ fl)" by simp
  also have "\<dots> = pow2 (ilog2 q + 1)" by (simp add: e pow2_def)
  finally have hi: "q < pow2 (ilog2 q + 1)" using nq(2) by simp
  show ?thesis using lo hi by simp
next
  case False
  define r where "r = 1 / q"
  have r: "1 < r" using False assms by (simp add: r_def)
  define m where "m = nat (\<lceil>r\<rceil> - 1)"
  define k where "k = floorlog 2 m"
  have c: "2 \<le> \<lceil>r\<rceil>" using r by linarith
  have m: "0 < m" using c by (simp add: m_def)
  have k: "0 < k" using m by (simp add: k_def floorlog_pos)
  have b: "2 ^ (k - 1) \<le> m" "m < 2 ^ k"
    using floorlog_bounds [of m 2] m by (simp_all add: k_def)
  have e: "ilog2 q = - int k" using False by (simp add: ilog2_def m_def k_def r_def)
  have mr: "rat_of_nat m < r" "r \<le> rat_of_nat m + 1"
    using c by (simp_all add: m_def of_nat_nat) linarith+
  have "Suc m \<le> 2 ^ k" using b(2) by simp
  then have "rat_of_nat (Suc m) \<le> rat_of_nat (2 ^ k)" by (simp only: of_nat_le_iff)
  then have "r \<le> rat_of_nat (2 ^ k)" using mr(2) by simp
  then have lo: "pow2 (ilog2 q) \<le> q"
    using assms k by (simp add: e pow2_def r_def field_simps)
  have "rat_of_nat (2 ^ (k - 1)) \<le> rat_of_nat m" using b(1) by (simp only: of_nat_le_iff)
  then have "rat_of_nat (2 ^ (k - 1)) < r" using mr(1) by (rule order_le_less_trans)
  then have hi: "q < pow2 (ilog2 q + 1)"
    using assms k False by (auto simp add: e pow2_def r_def field_simps nat_diff_distrib)
  show ?thesis using lo hi by simp
qed

lemma ilog2_unique:
  assumes "0 < q" "pow2 e \<le> q" "q < pow2 (e + 1)"
  shows "ilog2 q = e"
proof (rule ccontr)
  assume ne: "ilog2 q \<noteq> e"
  have b: "pow2 (ilog2 q) \<le> q" "q < pow2 (ilog2 q + 1)"
    using ilog2_bounds [OF assms(1)] by simp_all
  show False
  proof (cases "ilog2 q < e")
    case True
    then have "pow2 (ilog2 q + 1) \<le> pow2 e" by (intro pow2_mono) simp
    then show False using b(2) assms(2) by simp
  next
    case False
    then have "e + 1 \<le> ilog2 q" using ne by simp
    then have "pow2 (e + 1) \<le> pow2 (ilog2 q)" by (rule pow2_mono)
    then show False using b(1) assms(3) by simp
  qed
qed

lemma ilog2_mono:
  assumes "0 < q" "q \<le> q'"
  shows "ilog2 q \<le> ilog2 q'"
proof (rule ccontr)
  assume "\<not> ilog2 q \<le> ilog2 q'"
  then have "ilog2 q' + 1 \<le> ilog2 q" by simp
  then have "pow2 (ilog2 q' + 1) \<le> pow2 (ilog2 q)" by (rule pow2_mono)
  moreover have "q' < pow2 (ilog2 q' + 1)" using ilog2_bounds [of q'] assms by simp
  moreover have "pow2 (ilog2 q) \<le> q" using ilog2_bounds [of q] assms by simp
  ultimately show False using assms(2) by simp
qed

subsection \<open>round half even\<close>

lemma rhe_of_int [simp]: "round_half_even (of_int n) = n"
  by (simp add: round_half_even_def)

lemma floor_le_rhe: "\<lfloor>m\<rfloor> \<le> round_half_even m"
  by (simp add: round_half_even_def Let_def)

lemma rhe_le_floor1: "round_half_even m \<le> \<lfloor>m\<rfloor> + 1"
  by (simp add: round_half_even_def Let_def)

lemma rhe_lower: "of_int a \<le> m \<Longrightarrow> a \<le> round_half_even m"
  using floor_le_rhe [of m] by (simp add: le_floor_iff [symmetric])

lemma rhe_upper: "m \<le> of_int b \<Longrightarrow> round_half_even m \<le> b"
proof -
  assume h: "m \<le> of_int b"
  show ?thesis
  proof (cases "m = of_int b")
    case True then show ?thesis by simp
  next
    case False
    then have "m < of_int b" using h by simp
    then have "\<lfloor>m\<rfloor> < b" by (simp add: floor_less_iff)
    then show ?thesis using rhe_le_floor1 [of m] by simp
  qed
qed

lemma rhe_mono: "m \<le> m' \<Longrightarrow> round_half_even m \<le> round_half_even m'"
proof -
  assume h: "m \<le> m'"
  have f: "\<lfloor>m\<rfloor> \<le> \<lfloor>m'\<rfloor>" using h by (rule floor_mono)
  show ?thesis
  proof (cases "\<lfloor>m\<rfloor> = \<lfloor>m'\<rfloor>")
    case True
    then show ?thesis using h by (auto simp add: round_half_even_def Let_def)
  next
    case False
    then have "\<lfloor>m\<rfloor> + 1 \<le> \<lfloor>m'\<rfloor>" using f by simp
    moreover have "round_half_even m \<le> \<lfloor>m\<rfloor> + 1" by (rule rhe_le_floor1)
    moreover have "\<lfloor>m'\<rfloor> \<le> round_half_even m'" by (rule floor_le_rhe)
    ultimately show ?thesis by linarith
  qed
qed

lemma rhe_near_below: "of_int K - 1 / 2 < m \<Longrightarrow> m \<le> of_int K \<Longrightarrow> round_half_even m = K"
proof -
  assume h: "of_int K - 1 / 2 < m" "m \<le> of_int K"
  show ?thesis
  proof (cases "m = of_int K")
    case True then show ?thesis by simp
  next
    case False
    then have "\<lfloor>m\<rfloor> = K - 1" using h by (simp add: floor_unique)
    then show ?thesis using h by (auto simp add: round_half_even_def Let_def)
  qed
qed

subsection \<open>double_round\<close>

lemma double_round_pos_eq:
  "0 < q \<Longrightarrow> double_round q =
     of_int (round_half_even (q / pow2 (ilog2 q - 52))) * pow2 (ilog2 q - 52)"
  by (simp add: double_round_def Let_def)

lemma double_round_neg: "double_round (- q) = - double_round q"
  by (simp add: double_round_def Let_def sgn_minus)

lemma double_round_zero [simp]: "double_round 0 = 0"
  by (simp add: double_round_def)

lemma scaled_bounds:
  assumes "0 < q"
  shows "pow2 52 \<le> q / pow2 (ilog2 q - 52)" "q / pow2 (ilog2 q - 52) < pow2 53"
proof -
  have b: "pow2 (ilog2 q) \<le> q" "q < pow2 (ilog2 q + 1)"
    using ilog2_bounds [OF assms] by simp_all
  have "pow2 52 * pow2 (ilog2 q - 52) = pow2 (ilog2 q)"
    by (simp add: pow2_add [symmetric])
  then show "pow2 52 \<le> q / pow2 (ilog2 q - 52)"
    using b(1) by (simp add: pos_le_divide_eq)
  have "pow2 53 * pow2 (ilog2 q - 52) = pow2 (ilog2 q + 1)"
    by (simp add: pow2_add [symmetric] add.commute)
  then show "q / pow2 (ilog2 q - 52) < pow2 53"
    using b(2) by (simp add: pos_divide_less_eq)
qed

lemma double_round_pos_bounds:
  assumes "0 < q"
  shows "pow2 (ilog2 q) \<le> double_round q" "double_round q \<le> pow2 (ilog2 q + 1)"
proof -
  let ?u = "pow2 (ilog2 q - 52)"
  let ?n = "round_half_even (q / ?u)"
  have p52: "pow2 52 = of_int (2 ^ 52)" "pow2 53 = of_int (2 ^ 53)"
    by (simp_all add: pow2_def)
  have lo: "2 ^ 52 \<le> ?n"
    using scaled_bounds(1) [OF assms] unfolding p52 by (rule rhe_lower)
  have hi: "?n \<le> 2 ^ 53"
    using scaled_bounds(2) [OF assms] unfolding p52 by (intro rhe_upper) simp
  have "pow2 (ilog2 q) = pow2 52 * ?u" by (simp add: pow2_add [symmetric])
  also have "\<dots> \<le> of_int ?n * ?u"
    unfolding p52 using lo by (intro mult_right_mono) (simp_all only: of_int_le_iff pow2_pos less_imp_le)
  finally show "pow2 (ilog2 q) \<le> double_round q"
    using assms by (simp add: double_round_pos_eq)
  have "of_int ?n * ?u \<le> pow2 53 * ?u"
    unfolding p52 using hi by (intro mult_right_mono) (simp_all only: of_int_le_iff pow2_pos less_imp_le)
  also have "\<dots> = pow2 (ilog2 q + 1)" by (simp add: pow2_add [symmetric] add.commute)
  finally show "double_round q \<le> pow2 (ilog2 q + 1)"
    using assms by (simp add: double_round_pos_eq)
qed

lemma double_round_pos: "0 < q \<Longrightarrow> 0 < double_round q"
  using double_round_pos_bounds(1) [of q] pow2_pos [of "ilog2 q"] by linarith

lemma double_round_mono_pos:
  assumes "0 < q" "q \<le> q'"
  shows "double_round q \<le> double_round q'"
proof (cases "ilog2 q = ilog2 q'")
  case True
  have q': "0 < q'" using assms by simp
  let ?u = "pow2 (ilog2 q' - 52)"
  have "q / ?u \<le> q' / ?u" using assms(2) by (simp add: divide_right_mono less_imp_le)
  then have "round_half_even (q / ?u) \<le> round_half_even (q' / ?u)" by (rule rhe_mono)
  then have "rat_of_int (round_half_even (q / ?u)) * ?u \<le> rat_of_int (round_half_even (q' / ?u)) * ?u"
    by (intro mult_right_mono) (simp_all only: of_int_le_iff pow2_pos less_imp_le)
  then show ?thesis using assms q' True by (simp add: double_round_pos_eq)
next
  case False
  have q': "0 < q'" using assms by simp
  have "ilog2 q \<le> ilog2 q'" using assms by (rule ilog2_mono)
  then have "ilog2 q + 1 \<le> ilog2 q'" using False by simp
  then have "pow2 (ilog2 q + 1) \<le> pow2 (ilog2 q')" by (rule pow2_mono)
  then show ?thesis
    using double_round_pos_bounds(2) [OF assms(1)] double_round_pos_bounds(1) [OF q'] by linarith
qed

lemma double_round_mono:
  assumes "q \<le> q'"
  shows "double_round q \<le> double_round q'"
proof -
  consider "0 < q" | "q = 0" | "q < 0" "0 \<le> q'" | "q < 0" "q' < 0" by linarith
  then show ?thesis
  proof cases
    case 1 then show ?thesis using assms by (rule double_round_mono_pos)
  next
    case 2
    then show ?thesis
      using assms double_round_pos [of q'] by (cases "q' = 0") (simp_all add: less_imp_le)
  next
    case 3
    have "double_round q < 0"
      using double_round_pos [of "- q"] 3(1) by (simp add: double_round_neg)
    moreover have "0 \<le> double_round q'"
      using double_round_pos [of q'] 3(2) by (cases "q' = 0") (simp_all add: less_imp_le)
    ultimately show ?thesis by simp
  next
    case 4
    have "double_round (- q') \<le> double_round (- q)"
      using 4 assms by (intro double_round_mono_pos) simp_all
    then show ?thesis by (simp add: double_round_neg)
  qed
qed

subsection \<open>representable values\<close>

lemma pow2_diff: "pow2 a / pow2 b = pow2 (a - b)"
  by (simp add: pow2_powi power_int_diff)

lemma pow2_numeral [simp]: "pow2 0 = 1" "pow2 52 = 2 ^ 52" "pow2 53 = 2 ^ 53"
  by (simp_all add: pow2_def)

lemma double_round_scaled:
  assumes "0 < K" "K < 2 ^ 53"
  shows "double_round (of_int K * pow2 j) = of_int K * pow2 j"
proof -
  let ?q = "rat_of_int K * pow2 j"
  let ?e = "ilog2 ?q"
  have q: "0 < ?q" using assms(1) by simp
  have b: "pow2 ?e \<le> ?q" using ilog2_bounds [OF q] by simp
  have le: "?e - 52 \<le> j"
  proof (rule ccontr)
    assume "\<not> ?e - 52 \<le> j"
    then have "j + 53 \<le> ?e" by simp
    then have "pow2 (j + 53) \<le> pow2 ?e" by (rule pow2_mono)
    then have "pow2 (j + 53) \<le> ?q" using b by (rule order_trans)
    moreover have eq: "pow2 (j + 53) = 2 ^ 53 * pow2 j" by (simp add: pow2_add)
    ultimately have "2 ^ 53 * pow2 j \<le> ?q" by (simp only:)
    moreover have "rat_of_int K < rat_of_int (2 ^ 53)" using assms(2) by (simp only: of_int_less_iff)
    then have "?q < 2 ^ 53 * pow2 j" by (intro mult_strict_right_mono) simp_all
    ultimately show False by linarith
  qed
  define d where "d = nat (j - ?e + 52)"
  have "?q / pow2 (?e - 52) = rat_of_int K * pow2 (j - (?e - 52))"
    by (simp add: pow2_diff [symmetric])
  also have "pow2 (j - (?e - 52)) = rat_of_int (2 ^ d)"
    using le by (simp add: pow2_def d_def algebra_simps)
  finally have m: "?q / pow2 (?e - 52) = rat_of_int (K * 2 ^ d)" by simp
  have "double_round ?q = rat_of_int (K * 2 ^ d) * pow2 (?e - 52)"
    using q by (simp only: double_round_pos_eq m rhe_of_int)
  also have "\<dots> = ?q / pow2 (?e - 52) * pow2 (?e - 52)" by (simp only: m)
  also have "\<dots> = ?q" by simp
  finally show ?thesis .
qed

lemma double_round_of_int:
  assumes "\<bar>n\<bar> < 2 ^ 53"
  shows "double_round (of_int n) = of_int n"
proof -
  consider "n = 0" | "0 < n" | "n < 0" by linarith
  then show ?thesis
  proof cases
    case 1 then show ?thesis by simp
  next
    case 2
    then show ?thesis using double_round_scaled [of n 0] assms by simp
  next
    case 3
    then have "double_round (of_int (- n)) = of_int (- n)"
      using double_round_scaled [of "- n" 0] assms by simp
    then show ?thesis by (simp add: double_round_neg)
  qed
qed

lemma double_round_dyadic:
  assumes "0 < K" "K < 2 ^ 53"
  shows "double_round (of_int K / 2 ^ d) = of_int K / 2 ^ d"
proof -
  have "pow2 (- int d) = 1 / 2 ^ d"
    by (simp add: pow2_powi power_int_minus field_simps)
  then show ?thesis using double_round_scaled [OF assms, of "- int d"] by simp
qed

lemma pow2_neg_nat: "pow2 (- int d) = 1 / 2 ^ d"
  by (simp add: pow2_powi power_int_minus field_simps)

lemma double_round_just_below:
  assumes "1 \<le> k" "k \<le> 2 ^ 52" "0 \<le> t" "t * 2 ^ 54 < of_int k"
  shows "double_round (of_int k - t) = of_int k"
proof -
  let ?P = "rat_of_int k - t"
  let ?e = "ilog2 ?P"
  have k1: "1 \<le> rat_of_int k" using assms(1) by simp
  have "rat_of_int k \<le> rat_of_int (2 ^ 52)" using assms(2) by (simp only: of_int_le_iff)
  then have k52: "rat_of_int k \<le> 2 ^ 52" by simp
  have t4: "t < 1 / 4" using assms(4) k52 by simp
  have half: "1 / 2 < ?P" using t4 k1 by simp
  have P: "0 < ?P" using half by simp
  have b: "pow2 ?e \<le> ?P" "?P < pow2 (?e + 1)" using ilog2_bounds [OF P] by simp_all
  have e_hi: "?e \<le> 52"
  proof (rule ccontr)
    assume "\<not> ?e \<le> 52"
    then have "53 \<le> ?e" by simp
    then have "pow2 53 \<le> pow2 ?e" by (rule pow2_mono)
    then have "pow2 53 \<le> ?P" using b(1) by (rule order_trans)
    then show False using k52 assms(3) by simp
  qed
  have e_lo: "- 1 \<le> ?e"
  proof (rule ccontr)
    assume "\<not> - 1 \<le> ?e"
    then have "?e + 1 \<le> - 1" by simp
    then have "pow2 (?e + 1) \<le> pow2 (- 1)" by (rule pow2_mono)
    moreover have "pow2 (- 1) = 1 / 2" by (simp add: pow2_def)
    ultimately show False using b(2) half by simp
  qed
  define a where "a = nat (?e + 1)"
  define d where "d = nat (52 - ?e)"
  have pa: "pow2 (?e + 1) = rat_of_int (2 ^ a)" using e_lo by (simp add: pow2_def a_def)
  have "?e - 52 = - int d" using e_hi by (simp add: d_def)
  then have pd: "pow2 (?e - 52) = 1 / 2 ^ d" by (simp only: pow2_neg_nat)
  have ad: "a + d = 53" using e_hi e_lo by (simp add: a_def d_def)
  have "rat_of_int (k - 1) < ?P" using t4 by simp
  then have "rat_of_int (k - 1) < rat_of_int (2 ^ a)" using b(2) unfolding pa by (rule less_trans)
  then have "k - 1 < 2 ^ a" by (simp only: of_int_less_iff)
  then have "k \<le> 2 ^ a" by simp
  then have "rat_of_int k \<le> rat_of_int (2 ^ a)" by (simp only: of_int_le_iff)
  then have ka: "rat_of_int k \<le> 2 ^ a" by simp
  have m: "?P / pow2 (?e - 52) = rat_of_int (k * 2 ^ d) - t * 2 ^ d"
    by (simp add: pd algebra_simps)
  have "t * 2 ^ 54 < 2 ^ a" using assms(4) ka by (rule less_le_trans)
  then have "t * 2 ^ 54 * 2 ^ d < 2 ^ a * 2 ^ d" by (intro mult_strict_right_mono) simp_all
  also have "(2::rat) ^ a * 2 ^ d = 2 ^ 53" by (simp only: power_add [symmetric] ad)
  finally have small: "t * 2 ^ d < 1 / 2" by simp
  have tpos: "0 \<le> t * 2 ^ d" using assms(3) by simp
  have "round_half_even (?P / pow2 (?e - 52)) = k * 2 ^ d"
    unfolding m using small tpos by (intro rhe_near_below) simp_all
  then have "double_round ?P = rat_of_int (k * 2 ^ d) * pow2 (?e - 52)"
    using P by (simp only: double_round_pos_eq)
  also have "\<dots> = rat_of_int k" by (simp add: pd)
  finally show ?thesis .
qed

subsection \<open>truncated products\<close>

lemma py_int_between:
  assumes "0 \<le> k" "k < 2 ^ 31" "of_int k \<le> P" "P \<le> of_int k + 31 / 32"
  shows "py_int (double_round P) = k"
proof -
  have "double_round (of_int k) \<le> double_round P" using assms(3) by (rule double_round_mono)
  moreover have "double_round (rat_of_int k) = of_int k"
    using assms(1,2) by (intro double_round_of_int) simp
  ultimately have lo: "rat_of_int k \<le> double_round P" by simp
  have eq: "rat_of_int k + 31 / 32 = rat_of_int (32 * k + 31) / 2 ^ 5" by simp
  have fx: "double_round (rat_of_int k + 31 / 32) = rat_of_int k + 31 / 32"
    unfolding eq using assms(1,2) by (intro double_round_dyadic) simp_all
  have "double_round P \<le> double_round (of_int k + 31 / 32)"
    using assms(4) by (rule double_round_mono)
  then have hi: "double_round P \<le> of_int k + 31 / 32" unfolding fx .
  have "\<lfloor>double_round P\<rfloor> = k" using lo hi by (intro floor_unique) simp_all
  moreover have "0 \<le> double_round P" using lo assms(1) by simp
  ultimately show ?thesis by (simp add: py_int_def)
qed

lemma lit_015: "float_lit (15 / 100) = 3 / 20 - 1 / (5 * 2 ^ 55)" by code_simp
lemma lit_02: "float_lit (2 / 10) = 1 / 5 + 1 / (5 * 2 ^ 54)" by code_simp
lemma lit_08: "float_lit (8 / 10) = 4 / 5 + 1 / (5 * 2 ^ 52)" by code_simp
lemma lit_03: "float_lit (3 / 10) = 3 / 10 - 1 / (5 * 2 ^ 54)" by code_simp
lemma lit_05: "float_lit (5 / 10) = 1 / 2" by code_simp
lemma lit_07: "float_lit (7 / 10) = 7 / 10 - 1 / (5 * 2 ^ 52)" by code_simp

lemma float_of_int_exact: "\<bar>n\<bar> < 2 ^ 53 \<Longrightarrow> float_of_int n = of_int n"
  by (simp add: float_of_int_def double_round_of_int)

lemma div_mod_rat:
  fixes t b :: int
  shows "rat_of_int t = rat_of_int b * rat_of_int (t div b) + rat_of_int (t mod b)"
  by (metis mult_div_mod_eq of_int_add of_int_mult)

lemma mul_02:
  assumes "0 \<le> n" "n < 2 ^ 31"
  shows "py_int (fmul (float_of_int n) (float_lit (2 / 10))) = n div 5"
proof -
  define T where "T = n"
  define k where "k = T div 5"
  define r where "r = T mod 5"
  have dm: "5 * k + r = T" "0 \<le> r" "r < 5"
    unfolding k_def r_def by simp_all
  have r: "0 \<le> r" "r \<le> 4" using dm by simp_all
  have k: "0 \<le> k" "k < 2 ^ 31" using dm assms unfolding T_def by linarith+
  have n: "rat_of_int n = 5 * of_int k + of_int r"
    using div_mod_rat [of n 5] by (simp add: k_def r_def T_def)
  have r': "0 \<le> rat_of_int r" "rat_of_int r \<le> 4" using r by simp_all
  have n': "0 \<le> rat_of_int n" "rat_of_int n \<le> 2 ^ 31" using assms by simp_all
  have fo: "float_of_int n = of_int n" using assms by (intro float_of_int_exact) simp
  have "py_int (double_round (of_int n * (1 / 5 + 1 / (5 * 2 ^ 54)))) = k"
    using k n r' n' by (intro py_int_between) (simp_all add: field_simps)
  then show ?thesis by (simp only: fmul_def fo lit_02 k_def T_def)
qed

lemma py_int_of_int [simp]: "py_int (of_int k) = k"
  by (simp add: py_int_def)

lemma py_int_zero [simp]: "py_int 0 = 0"
  by (simp add: py_int_def)

lemma py_int_numeral [simp]: "py_int (numeral n) = numeral n"
  by (simp add: py_int_def)

lemma mul_08:
  assumes "0 \<le> n" "n < 2 ^ 31"
  shows "py_int (fmul (float_of_int n) (float_lit (8 / 10))) = (4 * n) div 5"
proof -
  define T where "T = 4 * n"
  define k where "k = T div 5"
  define r where "r = T mod 5"
  have dm: "5 * k + r = T" "0 \<le> r" "r < 5"
    unfolding k_def r_def by simp_all
  have r: "0 \<le> r" "r \<le> 4" using dm by simp_all
  have k: "0 \<le> k" "k < 2 ^ 31" using dm assms unfolding T_def by linarith+
  have n: "4 * rat_of_int n = 5 * of_int k + of_int r"
    using div_mod_rat [of "4 * n" 5] by (simp add: k_def r_def T_def)
  have r': "0 \<le> rat_of_int r" "rat_of_int r \<le> 4" using r by simp_all
  have n': "0 \<le> rat_of_int n" "rat_of_int n \<le> 2 ^ 31" using assms by simp_all
  have fo: "float_of_int n = of_int n" using assms by (intro float_of_int_exact) simp
  have "py_int (double_round (of_int n * (4 / 5 + 1 / (5 * 2 ^ 52)))) = k"
    using k n r' n' by (intro py_int_between) (simp_all add: field_simps)
  then show ?thesis by (simp only: fmul_def fo lit_08 k_def T_def)
qed

lemma mul_05:
  assumes "0 \<le> n" "n < 2 ^ 31"
  shows "py_int (fmul (float_of_int n) (float_lit (5 / 10))) = n div 2"
proof -
  define T where "T = n"
  define k where "k = T div 2"
  define r where "r = T mod 2"
  have dm: "2 * k + r = T" "0 \<le> r" "r < 2"
    unfolding k_def r_def by simp_all
  have r: "0 \<le> r" "r \<le> 1" using dm by simp_all
  have k: "0 \<le> k" "k < 2 ^ 31" using dm assms unfolding T_def by linarith+
  have n: "rat_of_int n = 2 * of_int k + of_int r"
    using div_mod_rat [of n 2] by (simp add: k_def r_def T_def)
  have r': "0 \<le> rat_of_int r" "rat_of_int r \<le> 1" using r by simp_all
  have fo: "float_of_int n = of_int n" using assms by (intro float_of_int_exact) simp
  have "py_int (double_round (of_int n * (1 / 2))) = k"
    using k n r' by (intro py_int_between) (simp_all add: field_simps)
  then show ?thesis by (simp only: fmul_def fo lit_05 k_def T_def)
qed

lemma mul_015:
  assumes "0 \<le> n" "n < 2 ^ 31"
  shows "py_int (fmul (float_of_int n) (float_lit (15 / 100))) = (3 * n) div 20"
proof -
  define T where "T = 3 * n"
  define k where "k = T div 20"
  define r where "r = T mod 20"
  have dm: "20 * k + r = T" "0 \<le> r" "r < 20"
    unfolding k_def r_def by simp_all
  have r: "0 \<le> r" "r \<le> 19" using dm by simp_all
  have k: "0 \<le> k" "k < 2 ^ 31" using dm assms unfolding T_def by linarith+
  have n: "3 * rat_of_int n = 20 * of_int k + of_int r"
    using div_mod_rat [of "3 * n" 20] by (simp add: k_def r_def T_def)
  have n': "0 \<le> rat_of_int n" "rat_of_int n \<le> 2 ^ 31" using assms by simp_all
  have fo: "float_of_int n = of_int n" using assms by (intro float_of_int_exact) simp
  have "py_int (double_round (of_int n * (3 / 20 - 1 / (5 * 2 ^ 55)))) = k"
  proof (cases "r = 0")
    case False
    then have "1 \<le> r" using r by simp
    then have r': "1 \<le> rat_of_int r" "rat_of_int r \<le> 19" using r by simp_all
    show ?thesis using k n r' n' by (intro py_int_between) (simp_all add: field_simps)
  next
    case True
    show ?thesis
    proof (cases "n = 0")
      case True
      then have "k = 0" by (simp add: k_def T_def)
      then show ?thesis using True by simp
    next
      case False
      then have npos: "0 < rat_of_int n" using assms by simp
      have nk: "3 * rat_of_int n = 20 * of_int k" using n True by simp
      have "0 < rat_of_int k" using npos nk by simp
      then have k1: "1 \<le> k" by simp
      have k52: "k \<le> 2 ^ 52" using k by simp
      have eq: "of_int n * (3 / 20 - 1 / (5 * 2 ^ 55)) = rat_of_int k - rat_of_int n / (5 * 2 ^ 55)"
        using nk by (simp add: field_simps)
      have "double_round (rat_of_int k - rat_of_int n / (5 * 2 ^ 55)) = rat_of_int k"
        using k1 k52 npos nk by (intro double_round_just_below) simp_all
      then show ?thesis by (simp only: eq py_int_of_int)
    qed
  qed
  then show ?thesis by (simp only: fmul_def fo lit_015 k_def T_def)
qed

lemma mul_03:
  assumes "0 \<le> n" "n < 2 ^ 31"
  shows "py_int (fmul (float_of_int n) (float_lit (3 / 10))) = (3 * n) div 10"
proof -
  define T where "T = 3 * n"
  define k where "k = T div 10"
  define r where "r = T mod 10"
  have dm: "10 * k + r = T" "0 \<le> r" "r < 10"
    unfolding k_def r_def by simp_all
  have r: "0 \<le> r" "r \<le> 9" using dm by simp_all
  have k: "0 \<le> k" "k < 2 ^ 31" using dm assms unfolding T_def by linarith+
  have n: "3 * rat_of_int n = 10 * of_int k + of_int r"
    using div_mod_rat [of "3 * n" 10] by (simp add: k_def r_def T_def)
  have n': "0 \<le> rat_of_int n" "rat_of_int n \<le> 2 ^ 31" using assms by simp_all
  have fo: "float_of_int n = of_int n" using assms by (intro float_of_int_exact) simp
  have "py_int (double_round (of_int n * (3 / 10 - 1 / (5 * 2 ^ 54)))) = k"
  proof (cases "r = 0")
    case False
    then have "1 \<le> r" using r by simp
    then have r': "1 \<le> rat_of_int r" "rat_of_int r \<le> 9" using r by simp_all
    show ?thesis using k n r' n' by (intro py_int_between) (simp_all add: field_simps)
  next
    case True
    show ?thesis
    proof (cases "n = 0")
      case True
      then have "k = 0" by (simp add: k_def T_def)
      then show ?thesis using True by simp
    next
      case False
      then have npos: "0 < rat_of_int n" using assms by simp
      have nk: "3 * rat_of_int n = 10 * of_int k" using n True by simp
      have "0 < rat_of_int k" using npos nk by simp
      then have k1: "1 \<le> k" by simp
      have k52: "k \<le> 2 ^ 52" using k by simp
      have eq: "of_int n * (3 / 10 - 1 / (5 * 2 ^ 54)) = rat_of_int k - rat_of_int n / (5 * 2 ^ 54)"
        using nk by (simp add: field_simps)
      have "double_round (rat_of_int k - rat_of_int n / (5 * 2 ^ 54)) = rat_of_int k"
        using k1 k52 npos nk by (intro double_round_just_below) simp_all
      then show ?thesis by (simp only: eq py_int_of_int)
    qed
  qed
  then show ?thesis by (simp only: fmul_def fo lit_03 k_def T_def)
qed

lemma mul_07:
  assumes "0 \<le> n" "n < 2 ^ 31"
  shows "(7 * n) div 10 - 1 \<le> py_int (fmul (float_of_int n) (float_lit (7 / 10)))"
    and "py_int (fmul (float_of_int n) (float_lit (7 / 10))) \<le> (7 * n) div 10"
    and "(7 * n) mod 10 \<noteq> 0 \<Longrightarrow>
           py_int (fmul (float_of_int n) (float_lit (7 / 10))) = (7 * n) div 10"
proof -
  define T where "T = 7 * n"
  define k where "k = T div 10"
  define r where "r = T mod 10"
  define P where "P = rat_of_int n * (7 / 10 - 1 / (5 * 2 ^ 52))"
  have dm: "10 * k + r = T" "0 \<le> r" "r < 10"
    unfolding k_def r_def by simp_all
  have k: "0 \<le> k" "k < 2 ^ 31" using dm assms unfolding T_def by linarith+
  have n: "7 * rat_of_int n = 10 * of_int k + of_int r"
    using div_mod_rat [of "7 * n" 10] by (simp add: k_def r_def T_def)
  have n': "0 \<le> rat_of_int n" "rat_of_int n \<le> 2 ^ 31" using assms by simp_all
  have fo: "float_of_int n = of_int n" using assms by (intro float_of_int_exact) simp
  have val: "py_int (fmul (float_of_int n) (float_lit (7 / 10))) = py_int (double_round P)"
    by (simp only: fmul_def fo lit_07 P_def)
  have pos: "r \<noteq> 0 \<Longrightarrow> py_int (double_round P) = k"
  proof -
    assume "r \<noteq> 0"
    then have "1 \<le> r" "r \<le> 9" using dm by simp_all
    then have r': "1 \<le> rat_of_int r" "rat_of_int r \<le> 9" by simp_all
    show ?thesis unfolding P_def
      using k n r' n' by (intro py_int_between) (simp_all add: field_simps)
  qed
  have zero: "r = 0 \<Longrightarrow> k - 1 \<le> py_int (double_round P) \<and> py_int (double_round P) \<le> k"
  proof -
    assume r0: "r = 0"
    have nk: "7 * rat_of_int n = 10 * of_int k" using n r0 by simp
    show ?thesis
    proof (cases "n = 0")
      case True
      then have "k = 0" "P = 0" by (simp_all add: k_def T_def P_def)
      then show ?thesis by simp
    next
      case False
      then have npos: "0 < rat_of_int n" using assms by simp
      have "0 < rat_of_int k" using npos nk by simp
      then have k1: "1 \<le> k" by simp
      have Pk: "P \<le> rat_of_int k" "rat_of_int (k - 1) \<le> P"
        using nk n' npos by (simp_all add: P_def field_simps)
      have "double_round P \<le> double_round (rat_of_int k)" using Pk(1) by (rule double_round_mono)
      moreover have "double_round (rat_of_int k) = rat_of_int k"
        using k by (intro double_round_of_int) simp
      ultimately have hi: "double_round P \<le> rat_of_int k" by simp
      have "double_round (rat_of_int (k - 1)) \<le> double_round P" using Pk(2) by (rule double_round_mono)
      moreover have "double_round (rat_of_int (k - 1)) = rat_of_int (k - 1)"
        using k k1 by (intro double_round_of_int) simp
      ultimately have lo: "rat_of_int (k - 1) \<le> double_round P" by simp
      have nonneg: "0 \<le> double_round P" using lo k1 by simp
      have "k - 1 \<le> \<lfloor>double_round P\<rfloor>" using lo by (simp only: le_floor_iff)
      moreover have "\<lfloor>double_round P\<rfloor> \<le> k" using hi by (simp add: floor_le_iff)
      ultimately show ?thesis using nonneg by (simp add: py_int_def)
    qed
  qed
  show "(7 * n) div 10 - 1 \<le> py_int (fmul (float_of_int n) (float_lit (7 / 10)))"
    using pos zero unfolding val k_def T_def by (cases "r = 0") simp_all
  show "py_int (fmul (float_of_int n) (float_lit (7 / 10))) \<le> (7 * n) div 10"
    using pos zero unfolding val k_def T_def by (cases "r = 0") simp_all
  show "(7 * n) mod 10 \<noteq> 0 \<Longrightarrow>
           py_int (fmul (float_of_int n) (float_lit (7 / 10))) = (7 * n) div 10"
    using pos unfolding val k_def r_def T_def by simp
qed

lemma mul_07_at_90: "py_int (fmul (float_of_int 90) (float_lit (7 / 10))) = 62"
  by code_simp

subsection \<open>colours\<close>

lemma py_int_mono:
  assumes "x \<le> y"
  shows "py_int x \<le> py_int y"
proof -
  consider "0 \<le> x" | "x < 0" "0 \<le> y" | "x < 0" "y < 0" by linarith
  then show ?thesis
  proof cases
    case 1
    then show ?thesis using assms by (simp add: py_int_def floor_mono)
  next
    case 2
    have "\<lceil>x\<rceil> \<le> 0" using 2(1) by (simp add: ceiling_le_iff)
    moreover have "0 \<le> \<lfloor>y\<rfloor>" using 2(2) by simp
    ultimately have "\<lceil>x\<rceil> \<le> \<lfloor>y\<rfloor>" by (rule order_trans)
    then show ?thesis using 2 by (simp add: py_int_def)
  next
    case 3
    then show ?thesis using assms by (simp add: py_int_def ceiling_mono)
  qed
qed



lemma truediv_zero [simp]: "truediv 0 sz = 0"
  by (simp add: truediv_def)

lemma truediv_mono: "0 < sz \<Longrightarrow> y \<le> y' \<Longrightarrow> truediv y sz \<le> truediv y' sz"
  unfolding truediv_def by (intro double_round_mono divide_right_mono) simp_all

lemma truediv_range:
  assumes "0 < sz" "0 \<le> y" "y < sz"
  shows "0 \<le> truediv y sz" "truediv y sz \<le> 1"
proof -
  have "double_round 0 \<le> double_round (rat_of_int y / rat_of_int sz)"
    using assms by (intro double_round_mono) simp
  then show "0 \<le> truediv y sz" by (simp add: truediv_def)
  have "double_round (rat_of_int y / rat_of_int sz) \<le> double_round (rat_of_int 1)"
    using assms by (intro double_round_mono) simp
  moreover have "double_round (rat_of_int 1) = rat_of_int 1"
    by (intro double_round_of_int) simp
  ultimately show "truediv y sz \<le> 1" by (simp add: truediv_def)
qed

lemma float_of_int_mono: "a \<le> b \<Longrightarrow> float_of_int a \<le> float_of_int b"
  unfolding float_of_int_def by (intro double_round_mono) simp

lemma float_of_int_0 [simp]: "float_of_int 0 = 0"
  by (simp add: float_of_int_def)

lemma channel_mono:
  assumes "a \<le> b" "s \<le> t"
  shows "channel a b s \<le> channel a b t"
proof -
  have "0 \<le> float_of_int (b - a)"
    using float_of_int_mono [of 0 "b - a"] assms(1) by simp
  then show ?thesis
    unfolding channel_def fadd_def fmul_def using assms(2)
    by (intro py_int_mono double_round_mono add_left_mono mult_left_mono)
qed

lemma channel_antimono:
  assumes "b \<le> a" "s \<le> t"
  shows "channel a b t \<le> channel a b s"
proof -
  have "float_of_int (b - a) \<le> 0"
    using float_of_int_mono [of "b - a" 0] assms(1) by simp
  then show ?thesis
    unfolding channel_def fadd_def fmul_def using assms(2)
    by (intro py_int_mono double_round_mono add_left_mono mult_left_mono_neg)
qed

lemma channel_0: "\<bar>a\<bar> < 2 ^ 53 \<Longrightarrow> channel a b 0 = a"
  by (simp add: channel_def fadd_def fmul_def float_of_int_exact double_round_of_int)

lemma channel_1:
  assumes "\<bar>a\<bar> < 2 ^ 53" "\<bar>b\<bar> < 2 ^ 53" "\<bar>b - a\<bar> < 2 ^ 53"
  shows "channel a b 1 = b"
proof -
  have fo: "float_of_int (b - a) = rat_of_int (b - a)" "float_of_int a = rat_of_int a"
    using assms by (simp_all only: float_of_int_exact)
  have "fmul (float_of_int (b - a)) 1 = double_round (rat_of_int (b - a))"
    by (simp only: fmul_def fo mult_1_right)
  also have "\<dots> = rat_of_int (b - a)" using assms(3) by (rule double_round_of_int)
  finally have "fmul (float_of_int (b - a)) 1 = rat_of_int (b - a)" .
  then have m: "fmul (rat_of_int (b - a)) 1 = rat_of_int (b - a)" by (simp only: fo)
  have "rat_of_int a + rat_of_int (b - a) = rat_of_int b" by simp
  then have "fadd (float_of_int a) (fmul (float_of_int (b - a)) 1) = double_round (rat_of_int b)"
    by (simp only: fadd_def fo m)
  also have "\<dots> = rat_of_int b" using assms(2) by (rule double_round_of_int)
  finally show ?thesis by (simp only: channel_def py_int_of_int)
qed

lemma channel_const: "\<bar>a\<bar> < 2 ^ 53 \<Longrightarrow> channel a a s = a"
  by (simp add: channel_def fadd_def fmul_def float_of_int_exact double_round_of_int)

lemma row_colour_0: "row_colour sz 0 = (139, 92, 246, 255)"
  by (simp add: row_colour_def Let_def channel_0 channel_const)

lemma row_colour_mono:
  assumes "0 < sz" "0 \<le> y" "y \<le> y'" "y' < sz"
  shows "\<exists>r g r' g'. row_colour sz y = (r, g, 246, 255) \<and> row_colour sz y' = (r', g', 246, 255)
           \<and> r' \<le> r \<and> g \<le> g' \<and> r \<le> 139 \<and> 59 \<le> r' \<and> 92 \<le> g \<and> g' \<le> 130"
proof -
  let ?s = "truediv y sz" and ?t = "truediv y' sz"
  have st: "?s \<le> ?t" using assms by (intro truediv_mono) simp_all
  have s0: "0 \<le> ?s" using assms by (intro truediv_range) simp_all
  have t1: "?t \<le> 1" using assms by (intro truediv_range) simp_all
  have "channel 139 59 ?s \<le> channel 139 59 0" using s0 by (intro channel_antimono) simp_all
  then have r_hi: "channel 139 59 ?s \<le> 139" by (simp add: channel_0)
  have "channel 139 59 1 \<le> channel 139 59 ?t" using t1 by (intro channel_antimono) simp_all
  then have r_lo: "59 \<le> channel 139 59 ?t" by (simp add: channel_1)
  have "channel 92 130 0 \<le> channel 92 130 ?s" using s0 by (intro channel_mono) simp_all
  then have g_lo: "92 \<le> channel 92 130 ?s" by (simp add: channel_0)
  have "channel 92 130 ?t \<le> channel 92 130 1" using t1 by (intro channel_mono) simp_all
  then have g_hi: "channel 92 130 ?t \<le> 130" by (simp add: channel_1)
  have r: "channel 139 59 ?t \<le> channel 139 59 ?s" using st by (intro channel_antimono) simp_all
  have g: "channel 92 130 ?s \<le> channel 92 130 ?t" using st by (intro channel_mono) simp_all
  show ?thesis
    using r g r_hi r_lo g_lo g_hi by (simp add: row_colour_def Let_def channel_const)
qed

section \<open>Painting\<close>

lemma paint_width [simp]: "width (paint cover ink img) = width img"
  by (simp add: paint_def)

lemma paint_height [simp]: "height (paint cover ink img) = height img"
  by (simp add: paint_def)

lemma inside_paint [simp]: "inside (paint cover ink img) p = inside img p"
  by (simp add: inside_def split: prod.splits)

lemma pixels_paint:
  "pixels (paint cover ink img) p = (if inside img p \<and> cover p then ink else pixels img p)"
  by (simp add: paint_def)

lemma gradient_rows_width [simp]: "width (gradient_rows y sz img) = width img"
  by (induction y sz img rule: gradient_rows.induct)
     (subst gradient_rows.simps, simp add: rectangle_fill_def)

lemma gradient_rows_height [simp]: "height (gradient_rows y sz img) = height img"
  by (induction y sz img rule: gradient_rows.induct)
     (subst gradient_rows.simps, simp add: rectangle_fill_def)

lemma fold_draw_width [simp]: "width (fold (draw_stroke R) ss img) = width img"
  by (induction ss arbitrary: img) (simp_all add: draw_stroke_def)

lemma fold_draw_height [simp]: "height (fold (draw_stroke R) ss img) = height img"
  by (induction ss arbitrary: img) (simp_all add: draw_stroke_def)

lemma inside_fold_draw [simp]: "inside (fold (draw_stroke R) ss img) p = inside img p"
  by (simp add: inside_def split: prod.splits)

lemma inside_gradient_rows [simp]: "inside (gradient_rows y sz img) p = inside img p"
  by (simp add: inside_def split: prod.splits)

lemma gradient_rows_pixels:
  "width img = sz \<Longrightarrow> height img = sz \<Longrightarrow> 0 \<le> y \<Longrightarrow>
     pixels (gradient_rows y sz img) (x, y') =
       (if 0 \<le> x \<and> x < sz \<and> y \<le> y' \<and> y' < sz then row_colour sz y'
        else pixels img (x, y'))"
proof (induction y sz img rule: gradient_rows.induct)
  case (1 y sz img)
  show ?case
  proof (cases "y < sz")
    case False
    then show ?thesis by (subst gradient_rows.simps) auto
  next
    case True
    let ?img' = "rectangle_fill (0, y, sz, y + 1) (row_colour sz y) img"
    have wh: "width ?img' = sz" "height ?img' = sz"
      using "1.prems" by (simp_all add: rectangle_fill_def)
    have ih: "pixels (gradient_rows (y + 1) sz ?img') (x, y') =
       (if 0 \<le> x \<and> x < sz \<and> y + 1 \<le> y' \<and> y' < sz then row_colour sz y'
        else pixels ?img' (x, y'))"
      using "1.IH" [OF True wh] "1.prems"(3) by simp
    have step: "pixels ?img' (x, y') =
       (if 0 \<le> x \<and> x < sz \<and> 0 \<le> y' \<and> y' < sz \<and> y \<le> y' \<and> y' \<le> y + 1
        then row_colour sz y else pixels img (x, y'))"
      using "1.prems" by (auto simp add: rectangle_fill_def pixels_paint inside_def in_box_def)
    have "gradient_rows y sz img = gradient_rows (y + 1) sz ?img'"
      using True by (subst gradient_rows.simps) simp
    then show ?thesis
      using ih step "1.prems"(3) by (cases "y' = y") auto
  qed
qed

lemma fold_draw_uncovered:
  "\<forall>s\<in>set ss. \<not> R s p \<Longrightarrow> pixels (fold (draw_stroke R) ss img) p = pixels img p"
  by (induction ss arbitrary: img) (simp_all add: draw_stroke_def pixels_paint)

lemma fold_draw_alpha:
  "\<forall>s\<in>set ss. alpha (stroke_ink s) = a \<Longrightarrow> alpha (pixels img p) = a \<Longrightarrow>
     alpha (pixels (fold (draw_stroke R) ss img) p) = a"
  by (induction ss arbitrary: img) (simp_all add: draw_stroke_def pixels_paint)

lemma fold_draw_cases:
  "pixels (fold (draw_stroke R) ss img) p = pixels img p
   \<or> (\<exists>s\<in>set ss. R s p \<and> pixels (fold (draw_stroke R) ss img) p = stroke_ink s)"
proof (induction ss arbitrary: img rule: rev_induct)
  case Nil
  then show ?case by simp
next
  case (snoc s ss)
  show ?case using snoc [of img] by (auto simp add: draw_stroke_def pixels_paint)
qed

lemma icon_strokes_ink: "\<forall>s\<in>set (icon_strokes sz). stroke_ink s = white"
  by (simp add: icon_strokes_def Let_def)

lemma alpha_row_colour [simp]: "alpha (row_colour sz y) = 255"
  by (simp add: row_colour_def Let_def alpha_def)

lemma icon_pixel_eq:
  assumes "0 \<le> x" "x < sz" "0 \<le> y" "y < sz"
  shows "icon_pixel R sz (x, y) =
     Some (pixels (fold (draw_stroke R) (icon_strokes sz)
            (gradient_rows 0 sz \<lparr>width = sz, height = sz, pixels = (\<lambda>p. (0, 0, 0, 0))\<rparr>)) (x, y))"
  using assms by (simp add: icon_pixel_def create_icon_def image_new_def getpixel_def inside_def)

lemma alpha_white [simp]: "alpha white = 255"
  by (simp add: white_def alpha_def)

lemma create_icon_returns:
  "0 \<le> sz \<Longrightarrow> create_icon R sz =
     Inr (fold (draw_stroke R) (icon_strokes sz)
            (gradient_rows 0 sz \<lparr>width = sz, height = sz, pixels = (\<lambda>p. (0, 0, 0, 0))\<rparr>))"
  by (simp add: create_icon_def image_new_def)

lemma background_pixel:
  assumes "0 \<le> x" "x < sz" "0 \<le> y" "y < sz"
  shows "pixels (gradient_rows 0 sz \<lparr>width = sz, height = sz, pixels = (\<lambda>p. (0, 0, 0, 0))\<rparr>) (x, y)
           = row_colour sz y"
  using assms by (subst gradient_rows_pixels) simp_all

section \<open>Dimensions and stroke width\<close>

lemma inside_square:
  "width img = n \<Longrightarrow> height img = n \<Longrightarrow> {p. inside img p} = {0..<n} \<times> {0..<n}"
  by (auto simp add: inside_def)

text \<open>
  Claim C8. For every size greater than zero the renderer returns a canvas, and that
  canvas is \<open>size\<close> pixels wide and \<open>size\<close> pixels high: it has exactly
  \<open>size * size\<close> pixels.
\<close>

theorem create_icon_dimensions:
  "0 < sz \<Longrightarrow>
     \<exists>img. create_icon R sz = Inr img \<and> width img = sz \<and> height img = sz
       \<and> card {p. inside img p} = nat (sz * sz)"
  by (simp add: create_icon_returns inside_square nat_mult_distrib)

theorem create_icon_dimensions_witness:
  "(0::int) < 48 \<and>
     (\<exists>img. create_icon band_strokes 48 = Inr img \<and> width img = 48 \<and> height img = 48
        \<and> card {p. inside img p} = nat (48 * 48))"
  using create_icon_dimensions [of 48 band_strokes] by simp

text \<open>
  Claim C5. For every size greater than zero, the rectangle outline and the three guide
  lines are all drawn with stroke width \<open>max 2 (size div 32)\<close>; the width is 4 at
  size 128 and 2 at size 16.
\<close>

theorem stroke_width_all:
  "0 < sz \<Longrightarrow>
     map stroke_width (icon_strokes sz)
       = [max 2 (sz div 32), max 2 (sz div 32), max 2 (sz div 32), max 2 (sz div 32)]
     \<and> map stroke_width (icon_strokes 128) = [4, 4, 4, 4]
     \<and> map stroke_width (icon_strokes 16) = [2, 2, 2, 2]"
  by (simp add: icon_strokes_def icon_line_width_def Let_def)

theorem stroke_width_all_witness:
  "(0::int) < 48 \<and> map stroke_width (icon_strokes 48) = [2, 2, 2, 2]"
  using stroke_width_all [of 48] by simp

section \<open>The glyph at the sizes the script uses\<close>

lemma strokes_16:
  "icon_strokes 16 = [Outline (2, 2, 14, 14) white 2, Line (4, 5) (11, 5) white 2,
                      Line (4, 8) (11, 8) white 2, Line (4, 10) (9, 10) white 2]"
  by code_simp

lemma strokes_128:
  "icon_strokes 128 = [Outline (19, 19, 109, 109) white 4, Line (37, 46) (91, 46) white 4,
                       Line (37, 64) (91, 64) white 4, Line (37, 81) (73, 81) white 4]"
  by code_simp

lemma spec_strokes_128:
  "spec_strokes 128 = [Outline (19, 19, 109, 109) white 4, Line (37, 46) (91, 46) white 4,
                       Line (37, 64) (91, 64) white 4, Line (37, 82) (73, 82) white 4]"
  by code_simp

lemma strokes_4:
  "icon_strokes 4 = [Outline (0, 0, 4, 4) white 2, Line (0, 1) (3, 1) white 2,
                     Line (0, 2) (3, 2) white 2, Line (0, 2) (3, 2) white 2]"
  by code_simp

lemma row_colour_16_15: "row_colour 16 15 = (64, 127, 246, 255)"
  by code_simp

lemma icon_pixel_uncovered:
  assumes "0 \<le> x" "x < sz" "0 \<le> y" "y < sz" "\<forall>s\<in>set (icon_strokes sz). \<not> R s (x, y)"
  shows "icon_pixel R sz (x, y) = Some (row_colour sz y)"
  using assms by (simp add: icon_pixel_eq fold_draw_uncovered background_pixel)

lemma icon_pixel_alpha:
  assumes "0 \<le> x" "x < sz" "0 \<le> y" "y < sz"
  shows "map_option alpha (icon_pixel R sz (x, y)) = Some 255"
proof -
  have "alpha (pixels (fold (draw_stroke R) (icon_strokes sz)
            (gradient_rows 0 sz \<lparr>width = sz, height = sz, pixels = (\<lambda>p. (0, 0, 0, 0))\<rparr>)) (x, y)) = 255"
    using assms by (intro fold_draw_alpha) (simp_all add: icon_strokes_ink background_pixel)
  then show ?thesis using assms by (simp add: icon_pixel_eq)
qed

section \<open>Opacity\<close>

text \<open>
  Claim C9. For every size greater than zero the renderer returns a canvas whose every
  pixel is fully opaque (alpha 255): the background loop paints every row at alpha 255
  before the white strokes are drawn, so no pixel of the initial transparent fill
  \<open>(0, 0, 0, 0)\<close> remains.
\<close>

theorem every_pixel_opaque:
  "0 < sz \<Longrightarrow>
     \<exists>img. create_icon R sz = Inr img
       \<and> (\<forall>p c. getpixel img p = Some c \<longrightarrow> alpha c = 255 \<and> c \<noteq> (0, 0, 0, 0))"
proof -
  assume sz: "0 < sz"
  let ?img = "fold (draw_stroke R) (icon_strokes sz)
            (gradient_rows 0 sz \<lparr>width = sz, height = sz, pixels = (\<lambda>p. (0, 0, 0, 0))\<rparr>)"
  have r: "create_icon R sz = Inr ?img" using sz by (simp add: create_icon_returns)
  have "alpha c = 255 \<and> c \<noteq> (0, 0, 0, 0)" if "getpixel ?img p = Some c" for p c
  proof -
    obtain x y where p: "p = (x, y)" by (cases p)
    have ins: "0 \<le> x" "x < sz" "0 \<le> y" "y < sz" and c: "c = pixels ?img (x, y)"
      using that unfolding p by (auto simp add: getpixel_def inside_def split: if_splits)
    have "map_option alpha (icon_pixel R sz (x, y)) = Some 255"
      using ins by (rule icon_pixel_alpha)
    then have "alpha c = 255" using ins c by (simp add: icon_pixel_eq)
    then show ?thesis by (auto simp add: alpha_def)
  qed
  then show ?thesis using r by blast
qed

theorem every_pixel_opaque_witness:
  "(0::int) < 16 \<and> (\<exists>img. create_icon band_strokes 16 = Inr img
       \<and> (\<forall>p c. getpixel img p = Some c \<longrightarrow> alpha c = 255 \<and> c \<noteq> (0, 0, 0, 0)))"
  using every_pixel_opaque [of 16 band_strokes] by simp

text \<open>
  Claim C1 says that the four corner pixels of the canvas have alpha 0 unless the outline
  overlaps them. At size 16 the outline lies in the box from \<open>(2, 2)\<close> to \<open>(14, 14)\<close> and no
  stroke comes near a corner, yet the corners hold the opaque background colours of the
  first and of the last row.
\<close>

theorem corner_alpha_counterexample:
  "icon_pixel band_strokes 16 (0, 0) = Some (139, 92, 246, 255)
   \<and> icon_pixel band_strokes 16 (15, 0) = Some (139, 92, 246, 255)
   \<and> icon_pixel band_strokes 16 (0, 15) = Some (64, 127, 246, 255)
   \<and> icon_pixel band_strokes 16 (15, 15) = Some (64, 127, 246, 255)
   \<and> map_option alpha (icon_pixel band_strokes 16 (0, 0)) \<noteq> Some 0"
proof -
  have a: "icon_pixel band_strokes 16 (0, 0) = Some (row_colour 16 0)"
    by (rule icon_pixel_uncovered) (simp_all add: strokes_16 in_box_def)
  have b: "icon_pixel band_strokes 16 (15, 0) = Some (row_colour 16 0)"
    by (rule icon_pixel_uncovered) (simp_all add: strokes_16 in_box_def)
  have c: "icon_pixel band_strokes 16 (0, 15) = Some (row_colour 16 15)"
    by (rule icon_pixel_uncovered) (simp_all add: strokes_16 in_box_def)
  have d: "icon_pixel band_strokes 16 (15, 15) = Some (row_colour 16 15)"
    by (rule icon_pixel_uncovered) (simp_all add: strokes_16 in_box_def)
  show ?thesis by (simp add: a b c d row_colour_0 row_colour_16_15 alpha_def)
qed

text \<open>
  Claim C1, as amended. For every size greater than zero the four corner pixels
  \<open>(0, 0)\<close>, \<open>(size - 1, 0)\<close>, \<open>(0, size - 1)\<close> and \<open>(size - 1, size - 1)\<close> of the
  returned canvas have alpha 255, whichever pixels the strokes cover.
\<close>

theorem corner_alpha:
  "0 < sz \<Longrightarrow>
     map_option alpha (icon_pixel R sz (0, 0)) = Some 255
     \<and> map_option alpha (icon_pixel R sz (sz - 1, 0)) = Some 255
     \<and> map_option alpha (icon_pixel R sz (0, sz - 1)) = Some 255
     \<and> map_option alpha (icon_pixel R sz (sz - 1, sz - 1)) = Some 255"
  by (simp add: icon_pixel_alpha)

theorem corner_alpha_witness:
  "(0::int) < 16 \<and> map_option alpha (icon_pixel band_strokes 16 (0, 0)) = Some 255
     \<and> map_option alpha (icon_pixel band_strokes 16 (15, 0)) = Some 255
     \<and> map_option alpha (icon_pixel band_strokes 16 (0, 15)) = Some 255
     \<and> map_option alpha (icon_pixel band_strokes 16 (15, 15)) = Some 255"
  using corner_alpha [of 16 band_strokes] by simp

section \<open>The background gradient\<close>



section \<open>The geometry of the glyph\<close>

lemma inner_facts:
  fixes sz :: int
  assumes "0 < sz" "sz < 2 ^ 31"
  defines "p \<equiv> (15 * sz) div 100"
  defines "i \<equiv> sz - 2 * p"
  shows "0 \<le> p" "0 \<le> i" "i < 2 ^ 31" "5 \<le> i \<longleftrightarrow> 5 \<le> sz"
proof -
  define r where "r = (15 * sz) mod 100"
  have "100 * p + r = 15 * sz"
    unfolding p_def r_def by (rule mult_div_mod_eq)
  moreover have "0 \<le> r" "r < 100" unfolding r_def by simp_all
  ultimately have dm: "100 * p + r = 15 * sz" "0 \<le> r" "r < 100" by simp_all
  show p0: "0 \<le> p" using dm assms(1) by linarith
  show "0 \<le> i" using dm assms(1) unfolding i_def by linarith
  have "i \<le> sz" using p0 unfolding i_def by linarith
  then show "i < 2 ^ 31" using assms(2) by simp
  show "5 \<le> i \<longleftrightarrow> 5 \<le> sz"
  proof (cases "8 \<le> sz \<or> sz \<le> 4")
    case True
    then show ?thesis using dm assms(1) unfolding i_def by linarith
  next
    case False
    then have "sz = 5 \<or> sz = 6 \<or> sz = 7" by linarith
    then show ?thesis unfolding i_def p_def by auto
  qed
qed

lemma padding_exact:
  assumes "0 < sz" "sz < 2 ^ 31"
  shows "icon_padding sz = (15 * sz) div 100"
proof -
  have e: "(15 * sz) div 100 = (3 * sz) div 20" by simp
  have "icon_padding sz = (3 * sz) div 20"
    unfolding icon_padding_def using assms by (intro mul_015) simp_all
  then show ?thesis by (simp only: e)
qed

lemma strokes_exact:
  assumes "0 < sz" "sz < 2 ^ 31"
  defines "p \<equiv> (15 * sz) div 100"
  defines "i \<equiv> sz - 2 * p"
  defines "y3 \<equiv> p + py_int (fmul (float_of_int i) (float_lit (7 / 10)))"
  shows "icon_strokes sz =
     [Outline (p, p, sz - p, sz - p) white (max 2 (sz div 32)),
      Line (p + i div 5, p + (3 * i) div 10) (p + (4 * i) div 5, p + (3 * i) div 10)
        white (max 2 (sz div 32)),
      Line (p + i div 5, p + i div 2) (p + (4 * i) div 5, p + i div 2)
        white (max 2 (sz div 32)),
      Line (p + i div 5, y3) (p + (4 * i) div 5 - i div 5, y3) white (max 2 (sz div 32))]"
proof -
  have pad: "icon_padding sz = p" unfolding p_def using assms(1,2) by (rule padding_exact)
  have i: "0 \<le> i" "i < 2 ^ 31"
    using inner_facts(2,3) [OF assms(1,2)] unfolding i_def p_def by simp_all
  have m: "py_int (fmul (float_of_int i) (float_lit (2 / 10))) = i div 5"
    "py_int (fmul (float_of_int i) (float_lit (8 / 10))) = (4 * i) div 5"
    "py_int (fmul (float_of_int i) (float_lit (3 / 10))) = (3 * i) div 10"
    "py_int (fmul (float_of_int i) (float_lit (5 / 10))) = i div 2"
    using i by (rule mul_02 mul_08 mul_03 mul_05)+
  show ?thesis
    unfolding icon_strokes_def Let_def pad icon_line_width_def i_def [symmetric] m y3_def
    by (rule refl)
qed

lemma floor_times_fraction:
  "\<lfloor>rat_of_int n * (rat_of_int a / rat_of_int b)\<rfloor> = (n * a) div b"
proof -
  have "rat_of_int n * (rat_of_int a / rat_of_int b) = rat_of_int (n * a) / rat_of_int b"
    by simp
  then show ?thesis by (simp only: floor_divide_of_int_eq)
qed

lemma spec_strokes_exact:
  fixes sz :: int
  defines "p \<equiv> (15 * sz) div 100"
  defines "i \<equiv> sz - 2 * p"
  shows "spec_strokes sz =
     [Outline (p, p, sz - p, sz - p) white (max 2 (sz div 32)),
      Line (p + i div 5, p + (3 * i) div 10) (p + (4 * i) div 5, p + (3 * i) div 10)
        white (max 2 (sz div 32)),
      Line (p + i div 5, p + i div 2) (p + (4 * i) div 5, p + i div 2)
        white (max 2 (sz div 32)),
      Line (p + i div 5, p + (7 * i) div 10) (p + (4 * i) div 5 - i div 5, p + (7 * i) div 10)
        white (max 2 (sz div 32))]"
proof -
  have pad: "\<lfloor>rat_of_int sz * (15 / 100)\<rfloor> = p"
    using floor_times_fraction [of sz 15 100] by (simp add: p_def mult.commute)
  have f: "\<lfloor>rat_of_int i * (2 / 10)\<rfloor> = i div 5"
    "\<lfloor>rat_of_int i * (8 / 10)\<rfloor> = (4 * i) div 5"
    "\<lfloor>rat_of_int i * (3 / 10)\<rfloor> = (3 * i) div 10"
    "\<lfloor>rat_of_int i * (5 / 10)\<rfloor> = i div 2"
    "\<lfloor>rat_of_int i * (7 / 10)\<rfloor> = (7 * i) div 10"
    using floor_times_fraction [of i 1 5] floor_times_fraction [of i 4 5]
      floor_times_fraction [of i 3 10] floor_times_fraction [of i 1 2]
      floor_times_fraction [of i 7 10]
    by (simp_all add: mult.commute)
  show ?thesis
    unfolding spec_strokes_def Let_def pad i_def [symmetric] f by (rule refl)
qed




section \<open>Running the script\<close>

lemma icon_path_values:
  "icon_path 16 = ''icons/icon16.png''"
  "icon_path 48 = ''icons/icon48.png''"
  "icon_path 128 = ''icons/icon128.png''"
  by code_simp+

lemma created_line_values:
  "created_line 16 = ''Created icon16.png''"
  "created_line 48 = ''Created icon48.png''"
  "created_line 128 = ''Created icon128.png''"
  by code_simp+

lemma dirname_values:
  "dirname ''icons/icon16.png'' = ''icons''"
  "dirname ''icons/icon48.png'' = ''icons''"
  "dirname ''icons/icon128.png'' = ''icons''"
  by code_simp+

lemma create_icon_ok: "0 \<le> sz \<Longrightarrow> \<exists>img. create_icon R sz = Inr img \<and> width img = sz \<and> height img = sz"
  by (simp add: create_icon_returns)

lemma save_in_icons:
  assumes "dirname path = ''icons''" "files w ''icons'' = Some Dir" "files w path \<noteq> Some Dir"
  shows "save png img path w =
           Inr (w\<lparr>trace := trace w @ [Save path], files := (files w)(path \<mapsto> File (png img))\<rparr>)"
  using assms by (simp add: save_def Let_def)

lemma save_icons_run:
  assumes c: "create_icon R 16 = Inr i16" "create_icon R 48 = Inr i48" "create_icon R 128 = Inr i128"
    and d: "files w ''icons'' = Some Dir"
    and t: "files w ''icons/icon16.png'' \<noteq> Some Dir" "files w ''icons/icon48.png'' \<noteq> Some Dir"
      "files w ''icons/icon128.png'' \<noteq> Some Dir"
  shows "save_icons R png sizes w =
     Inr (w\<lparr>trace := trace w @
              [Create_icon 16, Save ''icons/icon16.png'', Print ''Created icon16.png'',
               Create_icon 48, Save ''icons/icon48.png'', Print ''Created icon48.png'',
               Create_icon 128, Save ''icons/icon128.png'', Print ''Created icon128.png''],
            files := (files w)(''icons/icon16.png'' \<mapsto> File (png i16),
                               ''icons/icon48.png'' \<mapsto> File (png i48),
                               ''icons/icon128.png'' \<mapsto> File (png i128))\<rparr>)"
  using c d t
  by (simp add: sizes_def Let_def icon_path_values created_line_values dirname_values
        save_in_icons print_def)

lemma save_icons_fails:
  assumes "create_icon R 16 = Inr i16" "create_icon R 48 = Inr i48" "create_icon R 128 = Inr i128"
    and "files w ''icons'' \<noteq> Some Dir
         \<or> files w ''icons/icon16.png'' = Some Dir \<or> files w ''icons/icon48.png'' = Some Dir
         \<or> files w ''icons/icon128.png'' = Some Dir"
  shows "isl (save_icons R png sizes w)"
  using assms
  by (auto simp add: sizes_def Let_def icon_path_values created_line_values dirname_values
        save_def print_def split: option.splits entry.splits)

lemma generate_icons_from_dir:
  assumes c: "create_icon R 16 = Inr i16" "create_icon R 48 = Inr i48" "create_icon R 128 = Inr i128"
    and d: "files w ''icons'' = Some Dir"
    and t: "files w ''icons/icon16.png'' \<noteq> Some Dir" "files w ''icons/icon48.png'' \<noteq> Some Dir"
      "files w ''icons/icon128.png'' \<noteq> Some Dir"
  shows "generate_icons R png w =
     Inr (w\<lparr>trace := trace w @
              [Create_icon 16, Save ''icons/icon16.png'', Print ''Created icon16.png'',
               Create_icon 48, Save ''icons/icon48.png'', Print ''Created icon48.png'',
               Create_icon 128, Save ''icons/icon128.png'', Print ''Created icon128.png'',
               Print ''All icons created successfully!''],
            files := (files w)(''icons/icon16.png'' \<mapsto> File (png i16),
                               ''icons/icon48.png'' \<mapsto> File (png i48),
                               ''icons/icon128.png'' \<mapsto> File (png i128))\<rparr>)"
  using d by (simp add: generate_icons_def ensure_icons_dir_def path_exists_def icons_dir_def
        save_icons_run [OF c d t] print_def)

lemma generate_icons_fresh:
  assumes c: "create_icon R 16 = Inr i16" "create_icon R 48 = Inr i48" "create_icon R 128 = Inr i128"
    and d: "files w ''icons'' = None"
    and t: "files w ''icons/icon16.png'' \<noteq> Some Dir" "files w ''icons/icon48.png'' \<noteq> Some Dir"
      "files w ''icons/icon128.png'' \<noteq> Some Dir"
  shows "generate_icons R png w =
     Inr (w\<lparr>trace := trace w @
              [Makedirs ''icons'',
               Create_icon 16, Save ''icons/icon16.png'', Print ''Created icon16.png'',
               Create_icon 48, Save ''icons/icon48.png'', Print ''Created icon48.png'',
               Create_icon 128, Save ''icons/icon128.png'', Print ''Created icon128.png'',
               Print ''All icons created successfully!''],
            files := (files w)(''icons'' \<mapsto> Dir,
                               ''icons/icon16.png'' \<mapsto> File (png i16),
                               ''icons/icon48.png'' \<mapsto> File (png i48),
                               ''icons/icon128.png'' \<mapsto> File (png i128))\<rparr>)"
proof -
  let ?w0 = "w\<lparr>trace := trace w @ [Makedirs ''icons''], files := (files w)(''icons'' \<mapsto> Dir)\<rparr>"
  have e: "ensure_icons_dir w = Inr ?w0"
    using d by (simp add: ensure_icons_dir_def path_exists_def icons_dir_def makedirs_def Let_def)
  have "save_icons R png sizes ?w0 =
     Inr (?w0\<lparr>trace := trace ?w0 @
              [Create_icon 16, Save ''icons/icon16.png'', Print ''Created icon16.png'',
               Create_icon 48, Save ''icons/icon48.png'', Print ''Created icon48.png'',
               Create_icon 128, Save ''icons/icon128.png'', Print ''Created icon128.png''],
            files := (files ?w0)(''icons/icon16.png'' \<mapsto> File (png i16),
                               ''icons/icon48.png'' \<mapsto> File (png i48),
                               ''icons/icon128.png'' \<mapsto> File (png i128))\<rparr>)"
    using t by (intro save_icons_run [OF c]) simp_all
  then show ?thesis by (simp add: generate_icons_def e print_def)
qed

lemma wf_files_children:
  assumes "wf_files fs" "fs ''icons'' = None"
  shows "fs ''icons/icon16.png'' = None" "fs ''icons/icon48.png'' = None"
    "fs ''icons/icon128.png'' = None"
  using assms unfolding wf_files_def
  by (metis dirname_values(1) list.distinct(1) not_Some_eq option.distinct(1),
      metis dirname_values(2) list.distinct(1) not_Some_eq option.distinct(1),
      metis dirname_values(3) list.distinct(1) not_Some_eq option.distinct(1))

lemma icons_obtain:
  obtains i16 i48 i128 where
    "create_icon R 16 = Inr i16" "width i16 = 16" "height i16 = 16"
    "create_icon R 48 = Inr i48" "width i48 = 48" "height i48 = 48"
    "create_icon R 128 = Inr i128" "width i128 = 128" "height i128 = 128"
  using create_icon_ok [of 16 R] create_icon_ok [of 48 R] create_icon_ok [of 128 R]
  by auto

lemma names_of_sizes:
  "icons_dir = ''icons''"
  "map icon_path sizes = [''icons/icon16.png'', ''icons/icon48.png'', ''icons/icon128.png'']"
  "map created_line sizes = [''Created icon16.png'', ''Created icon48.png'', ''Created icon128.png'']"
  by (simp_all add: icons_dir_def sizes_def icon_path_values created_line_values)

text \<open>
  Claim C4. Run once in a file system without an entry \<open>icons\<close>, the script creates the
  directory and exactly three files in it, \<open>icon16.png\<close>, \<open>icon48.png\<close> and
  \<open>icon128.png\<close>, none of which existed before; it renders and writes them in the order
  16, 48, 128; each file holds the encoding of the RGBA canvas that \<open>create_icon\<close>
  returns for its size, whose width and height are that size; and it prints one line per
  file, in that order, followed by one completion line. Nothing else in the file system
  changes.
\<close>

theorem first_run:
  "files w ''icons'' = None \<Longrightarrow> wf_files (files w) \<Longrightarrow>
     \<exists>i16 i48 i128.
        create_icon R 16 = Inr i16 \<and> width i16 = 16 \<and> height i16 = 16
      \<and> create_icon R 48 = Inr i48 \<and> width i48 = 48 \<and> height i48 = 48
      \<and> create_icon R 128 = Inr i128 \<and> width i128 = 128 \<and> height i128 = 128
      \<and> files w ''icons/icon16.png'' = None \<and> files w ''icons/icon48.png'' = None
      \<and> files w ''icons/icon128.png'' = None
      \<and> icons_dir = ''icons''
      \<and> map icon_path sizes = [''icons/icon16.png'', ''icons/icon48.png'', ''icons/icon128.png'']
      \<and> generate_icons R png w =
          Inr (w\<lparr>trace := trace w @
                 [Makedirs ''icons'',
                  Create_icon 16, Save ''icons/icon16.png'', Print ''Created icon16.png'',
                  Create_icon 48, Save ''icons/icon48.png'', Print ''Created icon48.png'',
                  Create_icon 128, Save ''icons/icon128.png'', Print ''Created icon128.png'',
                  Print ''All icons created successfully!''],
               files := (files w)(''icons'' \<mapsto> Dir,
                                  ''icons/icon16.png'' \<mapsto> File (png i16),
                                  ''icons/icon48.png'' \<mapsto> File (png i48),
                                  ''icons/icon128.png'' \<mapsto> File (png i128))\<rparr>)"
proof -
  assume d: "files w ''icons'' = None" and wf: "wf_files (files w)"
  obtain i16 i48 i128 where c:
    "create_icon R 16 = Inr i16" "width i16 = 16" "height i16 = 16"
    "create_icon R 48 = Inr i48" "width i48 = 48" "height i48 = 48"
    "create_icon R 128 = Inr i128" "width i128 = 128" "height i128 = 128"
    by (rule icons_obtain)
  note n = wf_files_children [OF wf d]
  have run: "generate_icons R png w =
          Inr (w\<lparr>trace := trace w @
                 [Makedirs ''icons'',
                  Create_icon 16, Save ''icons/icon16.png'', Print ''Created icon16.png'',
                  Create_icon 48, Save ''icons/icon48.png'', Print ''Created icon48.png'',
                  Create_icon 128, Save ''icons/icon128.png'', Print ''Created icon128.png'',
                  Print ''All icons created successfully!''],
               files := (files w)(''icons'' \<mapsto> Dir,
                                  ''icons/icon16.png'' \<mapsto> File (png i16),
                                  ''icons/icon48.png'' \<mapsto> File (png i48),
                                  ''icons/icon128.png'' \<mapsto> File (png i128))\<rparr>)"
    using n by (intro generate_icons_fresh c d) simp_all
  show ?thesis
    apply (rule exI [of _ i16])
    apply (rule exI [of _ i48])
    apply (rule exI [of _ i128])
    using run c n names_of_sizes(1,2) by (intro conjI)
qed

theorem first_run_witness:
  "files \<lparr>files = Map.empty, trace = []\<rparr> ''icons'' = None
   \<and> wf_files (Map.empty :: string \<rightharpoonup> int entry)
   \<and> (\<exists>i16 i48 i128.
        create_icon band_strokes 16 = Inr i16 \<and> width i16 = 16 \<and> height i16 = 16
      \<and> create_icon band_strokes 48 = Inr i48 \<and> width i48 = 48 \<and> height i48 = 48
      \<and> create_icon band_strokes 128 = Inr i128 \<and> width i128 = 128 \<and> height i128 = 128
      \<and> icons_dir = ''icons''
      \<and> map icon_path sizes = [''icons/icon16.png'', ''icons/icon48.png'', ''icons/icon128.png'']
      \<and> generate_icons band_strokes width \<lparr>files = Map.empty, trace = []\<rparr> =
          Inr \<lparr>files = [''icons'' \<mapsto> Dir,
                        ''icons/icon16.png'' \<mapsto> File (width i16),
                        ''icons/icon48.png'' \<mapsto> File (width i48),
                        ''icons/icon128.png'' \<mapsto> File (width i128)],
               trace = [Makedirs ''icons'',
                  Create_icon 16, Save ''icons/icon16.png'', Print ''Created icon16.png'',
                  Create_icon 48, Save ''icons/icon48.png'', Print ''Created icon48.png'',
                  Create_icon 128, Save ''icons/icon128.png'', Print ''Created icon128.png'',
                  Print ''All icons created successfully!'']\<rparr>)"
proof -
  have h: "files \<lparr>files = Map.empty, trace = []\<rparr> ''icons'' = None"
    "wf_files (files \<lparr>files = (Map.empty :: string \<rightharpoonup> int entry), trace = []\<rparr>)"
    by (simp_all add: wf_files_def)
  show ?thesis using first_run [OF h, of band_strokes width] h by simp
qed

lemma save_error: "save png img path w = Inl (e, w') \<Longrightarrow> e \<noteq> FileExistsError"
  by (auto simp add: save_def Let_def split: option.splits entry.splits if_splits)

lemma create_icon_error: "create_icon R sz = Inl e \<Longrightarrow> e = ValueError"
  by (auto simp add: create_icon_def image_new_def split: if_splits)

lemma save_icons_error:
  "save_icons R png szs w = Inl (e, w') \<Longrightarrow> e \<noteq> FileExistsError"
proof (induction szs arbitrary: w)
  case Nil
  then show ?case by simp
next
  case (Cons sz rest)
  then show ?case
    by (auto simp add: Let_def split: sum.splits dest: save_error create_icon_error)
qed

lemma generate_icons_no_mkdir_error:
  assumes "files w ''icons'' \<noteq> None"
  shows "generate_icons R png w \<noteq> Inl (FileExistsError, w')"
  using assms
  by (auto simp add: generate_icons_def ensure_icons_dir_def path_exists_def icons_dir_def
        split: sum.splits dest: save_icons_error)

text \<open>
  Claim C7. When the directory \<open>icons\<close> already exists the script does not try to
  create it and raises no directory-creation error; if moreover none of the three target
  paths is itself a directory, the run succeeds and leaves under each of the three names
  the same file as a first run in a file system without \<open>icons\<close> does.
\<close>

theorem existing_directory:
  "files w ''icons'' = Some Dir \<Longrightarrow>
     (\<forall>w'. generate_icons R png w \<noteq> Inl (FileExistsError, w'))
     \<and> ((\<forall>sz\<in>set sizes. files w (icon_path sz) \<noteq> Some Dir)
           \<and> files w0 ''icons'' = None \<and> wf_files (files w0) \<longrightarrow>
          (\<exists>w' w0'. generate_icons R png w = Inr w' \<and> generate_icons R png w0 = Inr w0'
             \<and> (\<forall>sz\<in>set sizes. files w' (icon_path sz) = files w0' (icon_path sz)
                   \<and> (\<exists>c. files w' (icon_path sz) = Some (File c)))
             \<and> files w' ''icons'' = Some Dir
             \<and> Makedirs ''icons'' \<notin> set (drop (length (trace w)) (trace w'))))"
proof (intro conjI allI impI)
  fix w' assume "files w ''icons'' = Some Dir"
  then show "generate_icons R png w \<noteq> Inl (FileExistsError, w')"
    by (intro generate_icons_no_mkdir_error) simp
next
  assume d: "files w ''icons'' = Some Dir"
    and h: "(\<forall>sz\<in>set sizes. files w (icon_path sz) \<noteq> Some Dir)
           \<and> files w0 ''icons'' = None \<and> wf_files (files w0)"
  obtain i16 i48 i128 where c:
    "create_icon R 16 = Inr i16" "create_icon R 48 = Inr i48" "create_icon R 128 = Inr i128"
    by (rule icons_obtain)
  have t: "files w ''icons/icon16.png'' \<noteq> Some Dir" "files w ''icons/icon48.png'' \<noteq> Some Dir"
      "files w ''icons/icon128.png'' \<noteq> Some Dir"
    using h by (simp_all add: sizes_def icon_path_values)
  have n: "files w0 ''icons/icon16.png'' \<noteq> Some Dir" "files w0 ''icons/icon48.png'' \<noteq> Some Dir"
      "files w0 ''icons/icon128.png'' \<noteq> Some Dir"
    using wf_files_children [of "files w0"] h by simp_all
  note r = generate_icons_from_dir [OF c d t, of png]
  note r0 = generate_icons_fresh [OF c _ n, of png]
  show "\<exists>w' w0'. generate_icons R png w = Inr w' \<and> generate_icons R png w0 = Inr w0'
             \<and> (\<forall>sz\<in>set sizes. files w' (icon_path sz) = files w0' (icon_path sz)
                   \<and> (\<exists>c. files w' (icon_path sz) = Some (File c)))
             \<and> files w' ''icons'' = Some Dir
             \<and> Makedirs ''icons'' \<notin> set (drop (length (trace w)) (trace w'))"
    using h d by (simp add: r r0 sizes_def icon_path_values)
qed

theorem existing_directory_witness:
  "files \<lparr>files = [''icons'' \<mapsto> Dir], trace = []\<rparr> ''icons'' = Some Dir
   \<and> files \<lparr>files = Map.empty, trace = []\<rparr> ''icons'' = None
   \<and> wf_files (Map.empty :: string \<rightharpoonup> int entry)
   \<and> (\<exists>w' w0'. generate_icons band_strokes width \<lparr>files = [''icons'' \<mapsto> Dir], trace = []\<rparr> = Inr w'
         \<and> generate_icons band_strokes width \<lparr>files = Map.empty, trace = []\<rparr> = Inr w0'
         \<and> (\<forall>sz\<in>set sizes. files w' (icon_path sz) = files w0' (icon_path sz)
               \<and> (\<exists>c. files w' (icon_path sz) = Some (File c)))
         \<and> files w' ''icons'' = Some Dir
         \<and> Makedirs ''icons'' \<notin> set (trace w'))"
proof -
  have h: "files \<lparr>files = [''icons'' \<mapsto> (Dir :: int entry)], trace = []\<rparr> ''icons'' = Some Dir"
    by simp
  have g: "(\<forall>sz\<in>set sizes. files \<lparr>files = [''icons'' \<mapsto> (Dir :: int entry)], trace = []\<rparr> (icon_path sz) \<noteq> Some Dir)
     \<and> files \<lparr>files = (Map.empty :: string \<rightharpoonup> int entry), trace = []\<rparr> ''icons'' = None
     \<and> wf_files (files \<lparr>files = (Map.empty :: string \<rightharpoonup> int entry), trace = []\<rparr>)"
    by (simp add: sizes_def icon_path_values wf_files_def)
  show ?thesis
    using existing_directory [OF h, of band_strokes width "\<lparr>files = Map.empty, trace = []\<rparr>"] g
    by (simp add: wf_files_def)
qed

text \<open>
  Claim C6. The renderer is a function of its argument alone: it reads and changes
  nothing of the world. So when a run of the script has succeeded, a second run
  succeeds too, renders, saves and prints the same things in the same order without
  creating the directory again, and leaves every file of the file system, the three
  icon files included, with exactly the content it had after the first run.
\<close>

theorem rerun_identical:
  "generate_icons R png w = Inr w1 \<Longrightarrow>
     \<exists>w2. generate_icons R png w1 = Inr w2 \<and> files w2 = files w1
       \<and> trace w2 = trace w1 @
           [Create_icon 16, Save ''icons/icon16.png'', Print ''Created icon16.png'',
            Create_icon 48, Save ''icons/icon48.png'', Print ''Created icon48.png'',
            Create_icon 128, Save ''icons/icon128.png'', Print ''Created icon128.png'',
            Print ''All icons created successfully!'']"
proof -
  assume run: "generate_icons R png w = Inr w1"
  obtain i16 i48 i128 where c:
    "create_icon R 16 = Inr i16" "create_icon R 48 = Inr i48" "create_icon R 128 = Inr i128"
    by (rule icons_obtain)
  obtain w0 where e: "ensure_icons_dir w = Inr w0"
    using run by (auto simp add: generate_icons_def split: sum.splits)
  have s: "\<not> isl (save_icons R png sizes w0)"
    using run e by (auto simp add: generate_icons_def split: sum.splits)
  have d: "files w0 ''icons'' = Some Dir"
    and t: "files w0 ''icons/icon16.png'' \<noteq> Some Dir" "files w0 ''icons/icon48.png'' \<noteq> Some Dir"
      "files w0 ''icons/icon128.png'' \<noteq> Some Dir"
    using s save_icons_fails [OF c, of w0 png] by blast+
  have w1: "w1 = w0\<lparr>trace := trace w0 @
              [Create_icon 16, Save ''icons/icon16.png'', Print ''Created icon16.png'',
               Create_icon 48, Save ''icons/icon48.png'', Print ''Created icon48.png'',
               Create_icon 128, Save ''icons/icon128.png'', Print ''Created icon128.png'',
               Print ''All icons created successfully!''],
            files := (files w0)(''icons/icon16.png'' \<mapsto> File (png i16),
                               ''icons/icon48.png'' \<mapsto> File (png i48),
                               ''icons/icon128.png'' \<mapsto> File (png i128))\<rparr>"
    using run e by (auto simp add: generate_icons_def save_icons_run [OF c d t] print_def)
  have d1: "files w1 ''icons'' = Some Dir"
    and t1: "files w1 ''icons/icon16.png'' = Some (File (png i16))"
      "files w1 ''icons/icon48.png'' = Some (File (png i48))"
      "files w1 ''icons/icon128.png'' = Some (File (png i128))"
    using d by (simp_all add: w1)
  have same: "(files w1)(''icons/icon16.png'' \<mapsto> File (png i16),
                         ''icons/icon48.png'' \<mapsto> File (png i48),
                         ''icons/icon128.png'' \<mapsto> File (png i128)) = files w1"
    using t1 by (auto simp add: fun_eq_iff)
  have "generate_icons R png w1 =
     Inr (w1\<lparr>trace := trace w1 @
              [Create_icon 16, Save ''icons/icon16.png'', Print ''Created icon16.png'',
               Create_icon 48, Save ''icons/icon48.png'', Print ''Created icon48.png'',
               Create_icon 128, Save ''icons/icon128.png'', Print ''Created icon128.png'',
               Print ''All icons created successfully!''],
            files := (files w1)(''icons/icon16.png'' \<mapsto> File (png i16),
                               ''icons/icon48.png'' \<mapsto> File (png i48),
                               ''icons/icon128.png'' \<mapsto> File (png i128))\<rparr>)"
    using t1 by (intro generate_icons_from_dir c d1) simp_all
  then show ?thesis by (simp add: same)
qed

theorem rerun_identical_witness:
  "\<exists>w1 w2. generate_icons band_strokes width \<lparr>files = Map.empty, trace = []\<rparr> = Inr w1
     \<and> generate_icons band_strokes width w1 = Inr w2 \<and> files w2 = files w1
     \<and> files w1 ''icons'' = Some Dir"
proof -
  obtain i16 i48 i128 where c:
    "create_icon band_strokes 16 = Inr i16" "create_icon band_strokes 48 = Inr i48"
    "create_icon band_strokes 128 = Inr i128"
    by (rule icons_obtain)
  let ?w = "\<lparr>files = (Map.empty :: string \<rightharpoonup> int entry), trace = []\<rparr>"
  note r = generate_icons_fresh [OF c, of ?w width]
  obtain w1 where w1: "generate_icons band_strokes width ?w = Inr w1"
    "files w1 ''icons'' = Some Dir"
    using r by simp
  show ?thesis using rerun_identical [OF w1(1)] w1 by blast
qed

text \<open>
  Claim C10. Before writing, the script tests only whether an entry named \<open>icons\<close>
  exists. When any entry of that name exists, a regular file included, it skips the
  creation of the directory and leaves the world as it is; when none exists it calls
  \<open>os.makedirs\<close>, which creates the directory. With a regular file named \<open>icons\<close> the run
  then fails at the first save, the file system unchanged.
\<close>

theorem exists_check_only:
  "(files w icons_dir \<noteq> None \<longrightarrow> ensure_icons_dir w = Inr w)
   \<and> (files w icons_dir = None \<longrightarrow>
         ensure_icons_dir w = makedirs icons_dir w
         \<and> makedirs icons_dir w =
             Inr (w\<lparr>trace := trace w @ [Makedirs icons_dir], files := (files w)(icons_dir \<mapsto> Dir)\<rparr>))
   \<and> (\<forall>c. files w icons_dir = Some (File c) \<longrightarrow>
         generate_icons R png w =
           Inl (NotADirectoryError,
                w\<lparr>trace := trace w @ [Create_icon 16, Save ''icons/icon16.png'']\<rparr>))"
proof (intro conjI allI impI)
  assume "files w icons_dir \<noteq> None"
  then show "ensure_icons_dir w = Inr w" by (simp add: ensure_icons_dir_def path_exists_def)
next
  assume "files w icons_dir = None"
  then show "ensure_icons_dir w = makedirs icons_dir w" by (simp add: ensure_icons_dir_def path_exists_def)
next
  assume "files w icons_dir = None"
  then show "makedirs icons_dir w =
             Inr (w\<lparr>trace := trace w @ [Makedirs icons_dir], files := (files w)(icons_dir \<mapsto> Dir)\<rparr>)"
    by (simp add: makedirs_def Let_def)
next
  fix c assume f: "files w icons_dir = Some (File c)"
  obtain i16 where i: "create_icon R 16 = Inr i16" using create_icon_ok [of 16 R] by auto
  show "generate_icons R png w =
           Inl (NotADirectoryError,
                w\<lparr>trace := trace w @ [Create_icon 16, Save ''icons/icon16.png'']\<rparr>)"
    using f i
    by (simp add: generate_icons_def ensure_icons_dir_def path_exists_def icons_dir_def sizes_def
          Let_def icon_path_values dirname_values save_def)
qed

theorem exists_check_only_witness:
  "files \<lparr>files = [''icons'' \<mapsto> File (0::int)], trace = []\<rparr> icons_dir \<noteq> None
   \<and> ensure_icons_dir \<lparr>files = [''icons'' \<mapsto> File (0::int)], trace = []\<rparr>
       = Inr \<lparr>files = [''icons'' \<mapsto> File 0], trace = []\<rparr>
   \<and> generate_icons band_strokes width \<lparr>files = [''icons'' \<mapsto> File 0], trace = []\<rparr>
       = Inl (NotADirectoryError,
              \<lparr>files = [''icons'' \<mapsto> File 0], trace = [Create_icon 16, Save ''icons/icon16.png'']\<rparr>)
   \<and> ensure_icons_dir \<lparr>files = (Map.empty :: string \<rightharpoonup> int entry), trace = []\<rparr>
       = Inr \<lparr>files = [''icons'' \<mapsto> Dir], trace = [Makedirs ''icons'']\<rparr>"
  using exists_check_only [of "\<lparr>files = [''icons'' \<mapsto> File (0::int)], trace = []\<rparr>" band_strokes width]
    exists_check_only [of "\<lparr>files = (Map.empty :: string \<rightharpoonup> int entry), trace = []\<rparr>" band_strokes width]
  by (simp add: icons_dir_def)

end
